theory Spec2Isabelle
  imports Main
begin

section \<open>JavaScript strings\<close>

text \<open>
  A JavaScript string is a sequence of UTF-16 code units; \<open>length\<close>, \<open>slice\<close> and the
  regular expressions of the sources (none has the \<open>u\<close> flag) all work on code units.
  A code unit is modelled as a natural number, ASCII literals are converted with \<open>js\<close>.
\<close>

type_synonym jstring = "nat list"

definition js :: "string \<Rightarrow> jstring" where
  "js s = map of_char s"

text \<open>\<open>String.prototype.includes\<close>: does \<open>sub\<close> occur in \<open>s\<close> at some index.\<close>

definition js_includes :: "jstring \<Rightarrow> jstring \<Rightarrow> bool" where
  "js_includes s sub = list_ex (\<lambda>i. take (length sub) (drop i s) = sub) [0..<Suc (length s)]"

section \<open>scripts/utils/queue.ts: the retry executor\<close>

text \<open>
  The values a task's operation rejects with. \<open>executeTaskWithRetry\<close> reads them as
  \<open>Error\<close> objects (\<open>error as Error\<close>) and tells \<open>TranslationRefusedError\<close> apart with
  \<open>instanceof\<close>; a \<open>TranslationRefusedError\<close> carries the text and the reason code.
\<close>

datatype error =
    TranslationRefusedError (refused_text: jstring) (refused_reason: jstring)
  | Error (message: jstring)

fun instanceof_TranslationRefusedError :: "error \<Rightarrow> bool" where
  "instanceof_TranslationRefusedError (TranslationRefusedError t r) = True"
| "instanceof_TranslationRefusedError (Error m) = False"

text \<open>
  \<open>QueueTask = { key, queue, resolve, reject }\<close>. The operation \<open>queue\<close> is an effectful
  closure: \<open>queue t n\<close> is the outcome of its invocation number \<open>n\<close> (counted from 0),
  \<open>None\<close> for a fulfilled promise and \<open>Some e\<close> for one rejected with \<open>e\<close>. The pair
  \<open>resolve\<close>/\<open>reject\<close> belongs to the promise made by \<open>addQueue\<close>; \<open>handle\<close> names
  that promise.
\<close>

record QueueTask =
  key :: jstring
  queue :: "nat \<Rightarrow> error option"
  handle :: nat

definition MAX_RETRIES :: nat where
  "MAX_RETRIES = 5"

definition RETRY_DELAYS :: "nat list" where
  "RETRY_DELAYS = [0, 1000, 2000, 8000, 10000, 60000]"

text \<open>Array indexing: \<open>undefined\<close> (here \<open>None\<close>) out of range.\<close>

definition RETRY_DELAYS_at :: "nat \<Rightarrow> nat option" where
  "RETRY_DELAYS_at i = (if i < length RETRY_DELAYS then Some (RETRY_DELAYS ! i) else None)"

text \<open>What one run of the executor does, in order.\<close>

datatype level = Warn | Debug | Info | Err

datatype event =
    Call nat           \<comment> \<open>\<open>task.queue()\<close> invoked, with the current \<open>retryCount\<close>\<close>
  | Delay "nat option" \<comment> \<open>\<open>await delay(retryDelay)\<close>\<close>
  | Log level

definition too_many_requests :: jstring where
  "too_many_requests = js ''429 Too Many Requests''"

text \<open>The logging of a failed attempt (lines 93 to 99).\<close>

definition failure_logs :: "error \<Rightarrow> event list" where
  "failure_logs e =
     (if message e \<noteq> [] then
        (if \<not> js_includes (message e) too_many_requests then [Log Warn, Log Debug] else [])
      else [])"

text \<open>
  \<open>executeTaskWithRetry(task, retryCount = 0)\<close>. The result is \<open>Inr ()\<close> when the
  returned promise is fulfilled and \<open>Inl e\<close> when \<open>e\<close> is thrown to the caller, together
  with the events of the run. The processor calls it with \<open>retryCount = 0\<close>, so the
  invocation number of the operation is \<open>retryCount\<close>.
\<close>

function executeTaskWithRetry :: "('a QueueTask_scheme) \<Rightarrow> nat \<Rightarrow> (error + unit) \<times> event list" where
  "executeTaskWithRetry task retryCount =
     (case queue task retryCount of
        None \<Rightarrow> (Inr (), [Call retryCount])
      | Some e \<Rightarrow>
          if instanceof_TranslationRefusedError e then (Inl e, [Call retryCount])
          else if retryCount < MAX_RETRIES then
            (let retryDelay = RETRY_DELAYS_at (retryCount + 1);
                 (r, evs) = executeTaskWithRetry task (retryCount + 1)
             in (r, Call retryCount # failure_logs e @ [Log Info, Delay retryDelay] @ evs))
          else (Inl e, Call retryCount # failure_logs e @ [Log Err]))"
  by pat_completeness auto
termination
  by (relation "measure (\<lambda>(task, retryCount). MAX_RETRIES - retryCount)") auto

declare executeTaskWithRetry.simps [simp del]



text \<open>The retries \<open>r+1 .. r+k\<close>, each after its delay \<open>RETRY_DELAYS[n+1]\<close>.\<close>

fun retries :: "nat \<Rightarrow> nat \<Rightarrow> event list" where
  "retries r 0 = []"
| "retries r (Suc k) = Delay (Some (RETRY_DELAYS ! (r + 1))) # Call (r + 1) # retries (r + 1) k"




section \<open>scripts/utils/queue.ts: the queue and its processor\<close>

text \<open>
  The module state is \<open>translationQueue\<close>, \<open>lastRequestTime\<close> and \<open>isProcessing\<close>.
  JavaScript runs each piece of code between two \<open>await\<close>s without interruption, so a
  call of \<open>processQueue\<close> is a sequence of such pieces, and between two of them other
  code (further calls of \<open>addQueue\<close>) may run. An invocation of \<open>processQueue\<close> that
  is suspended at an \<open>await\<close> is a \<open>proc\<close>: at \<open>await delay(..)\<close> of line 46, with the
  time the timer is due, or at \<open>await executeTaskWithRetry(task)\<close> of line 56.

  Next to the module state the model keeps the environment and what can be observed:
  the clock read by \<open>Date.now()\<close>, the suspended invocations, the calls of
  \<open>resolve\<close>/\<open>reject\<close> in the order they were made, the dispatches (the handle of the
  task and the \<open>lastRequestTime\<close> stored just before its operation is started), and the
  number of promises handed out by \<open>addQueue\<close>.
\<close>

datatype settlement = Resolve nat | Reject nat error

fun settled_handle :: "settlement \<Rightarrow> nat" where
  "settled_handle (Resolve h) = h"
| "settled_handle (Reject h e) = h"

fun is_Resolve :: "settlement \<Rightarrow> bool" where
  "is_Resolve (Resolve h) = True"
| "is_Resolve (Reject h e) = False"

datatype proc = AwaitSlot int | AwaitTask QueueTask

record qstate =
  translationQueue :: "QueueTask list"
  lastRequestTime :: int
  isProcessing :: bool
  clock :: int
  procs :: "proc list"
  settlements :: "settlement list"
  dispatched :: "(nat \<times> int) list"
  next_handle :: nat

definition initial :: "int \<Rightarrow> qstate" where
  "initial now =
     \<lparr>translationQueue = [], lastRequestTime = 0, isProcessing = False, clock = now,
      procs = [], settlements = [], dispatched = [], next_handle = 0\<rparr>"

text \<open>The message of the error the remaining tasks are rejected with (line 64), as
  UTF-16 code units.\<close>

definition abort_message :: jstring where
  "abort_message = [53328, 32, 52376, 47532, 44032, 32, 51060, 51204, 32, 50640, 47084,
     47196, 32, 51064, 54644, 32, 51473, 45800, 46120]"

text \<open>Lines 61 to 66: every remaining task is shifted off the queue and rejected.\<close>

fun drain :: "QueueTask list \<Rightarrow> settlement list" where
  "drain [] = []"
| "drain (remainingTask # rest) = Reject (handle remainingTask) (Error abort_message) # drain rest"

text \<open>
  Lines 49 to 56, from \<open>translationQueue.shift()\<close> to the \<open>await\<close> of the executor:
  the head is taken off the queue, \<open>lastRequestTime\<close> is set and the operation
  started. On an empty queue \<open>shift\<close> gives \<open>undefined\<close>, the loop is left and line 72
  clears the flag; the invocation returns (\<open>None\<close>).
\<close>

definition dispatch :: "qstate \<Rightarrow> qstate \<times> proc option" where
  "dispatch s =
     (case translationQueue s of
        [] \<Rightarrow> (s\<lparr>isProcessing := False\<rparr>, None)
      | task # rest \<Rightarrow>
          (s\<lparr>translationQueue := rest, lastRequestTime := clock s,
             dispatched := dispatched s @ [(handle task, clock s)]\<rparr>,
           Some (AwaitTask task)))"

text \<open>
  The loop from its test (line 42): on an empty queue the flag is cleared and the
  invocation returns; otherwise it waits for the rest of the 100 ms when fewer have
  passed since \<open>lastRequestTime\<close>, and dispatches at once when not.
\<close>

definition loop_head :: "qstate \<Rightarrow> qstate \<times> proc option" where
  "loop_head s =
     (if length (translationQueue s) > 0 then
        (let now = clock s;
             timeSinceLastRequest = now - lastRequestTime s
         in if timeSinceLastRequest < 100
            then (s, Some (AwaitSlot (now + (100 - timeSinceLastRequest))))
            else dispatch s)
      else (s\<lparr>isProcessing := False\<rparr>, None))"

text \<open>
  Lines 56 to 69, when the executor's promise settles: on success the task is resolved
  and the loop goes on; on failure the task is rejected with the error, the queue is
  drained, the flag cleared and the invocation returns.
\<close>

definition after_task :: "QueueTask \<Rightarrow> qstate \<Rightarrow> qstate \<times> proc option" where
  "after_task task s =
     (case fst (executeTaskWithRetry task 0) of
        Inr u \<Rightarrow> loop_head (s\<lparr>settlements := settlements s @ [Resolve (handle task)]\<rparr>)
      | Inl e \<Rightarrow>
          (s\<lparr>settlements := settlements s @ Reject (handle task) e # drain (translationQueue s),
             translationQueue := [],
             isProcessing := False\<rparr>, None))"

text \<open>\<open>processQueue()\<close> up to its first \<open>await\<close> or its return.\<close>

definition processQueue :: "qstate \<Rightarrow> qstate" where
  "processQueue s =
     (if isProcessing s then s
      else (case loop_head (s\<lparr>isProcessing := True\<rparr>) of
              (s', None) \<Rightarrow> s'
            | (s', Some p) \<Rightarrow> s'\<lparr>procs := procs s' @ [p]\<rparr>))"

text \<open>\<open>addQueue(key, newQueue)\<close>: a new promise, the task pushed, \<open>processQueue\<close> called.\<close>

definition addQueue :: "jstring \<Rightarrow> (nat \<Rightarrow> error option) \<Rightarrow> qstate \<Rightarrow> qstate" where
  "addQueue k newQueue s =
     processQueue
       (s\<lparr>translationQueue := translationQueue s @ [\<lparr>key = k, queue = newQueue, handle = next_handle s\<rparr>],
          next_handle := next_handle s + 1\<rparr>)"

text \<open>A suspended invocation goes on: it is replaced by its next suspension, or
  removed when it returned.\<close>

definition resumed :: "nat \<Rightarrow> qstate \<times> proc option \<Rightarrow> qstate" where
  "resumed i r =
     (case r of
        (s', None) \<Rightarrow> s'\<lparr>procs := take i (procs s') @ drop (Suc i) (procs s')\<rparr>
      | (s', Some p) \<Rightarrow> s'\<lparr>procs := (procs s')[i := p]\<rparr>)"

text \<open>
  What can happen next: the clock advances (it never goes back), \<open>addQueue\<close> is called,
  or the awaited promise of a suspended invocation settles. A timer set by \<open>delay(ms)\<close>
  does not fire before \<open>ms\<close> milliseconds have passed; the promise of the executor may
  settle at any time. \<open>None\<close>: the step cannot happen in this state.
\<close>

datatype input = Tick nat | AddQueue jstring "nat \<Rightarrow> error option" | Resume nat

fun step :: "qstate \<Rightarrow> input \<Rightarrow> qstate option" where
  "step s (Tick d) = Some (s\<lparr>clock := clock s + int d\<rparr>)"
| "step s (AddQueue k newQueue) = Some (addQueue k newQueue s)"
| "step s (Resume i) =
     (if i < length (procs s) then
        (case procs s ! i of
           AwaitSlot due \<Rightarrow> if due \<le> clock s then Some (resumed i (dispatch s)) else None
         | AwaitTask task \<Rightarrow> Some (resumed i (after_task task s)))
      else None)"

fun steps :: "qstate \<Rightarrow> input list \<Rightarrow> qstate option" where
  "steps s [] = Some s"
| "steps s (i # is) = (case step s i of None \<Rightarrow> None | Some s' \<Rightarrow> steps s' is)"

text \<open>The tasks whose operation is running, and the tasks not yet settled.\<close>

fun running :: "proc list \<Rightarrow> QueueTask list" where
  "running [] = []"
| "running (AwaitTask task # ps) = task # running ps"
| "running (AwaitSlot due # ps) = running ps"

definition pending :: "qstate \<Rightarrow> nat list" where
  "pending s = map handle (running (procs s) @ translationQueue s)"

text \<open>Consecutive dispatches are at least 100 ms apart.\<close>

fun spaced :: "(nat \<times> int) list \<Rightarrow> bool" where
  "spaced [] = True"
| "spaced [d] = True"
| "spaced (d # d' # ds) = (snd d + 100 \<le> snd d' \<and> spaced (d' # ds))"

text \<open>
  The invariant of the queue. \<open>flow_inv r s\<close>, with \<open>r\<close> the handles of the running
  tasks: the settled tasks, the running ones and the queued ones are, in this order,
  the tasks \<open>0, 1, ..\<close> submitted so far; dispatches happened in increasing order of
  handles, each of a task that is settled or running, at least 100 ms apart;
  \<open>lastRequestTime\<close> is the time of the last one, and a running task is the one
  dispatched last.
\<close>

definition flow_inv :: "nat list \<Rightarrow> qstate \<Rightarrow> bool" where
  "flow_inv r s =
     (map settled_handle (settlements s) @ r @ map handle (translationQueue s)
        = [0..<next_handle s]
      \<and> sorted_wrt (<) (map fst (dispatched s))
      \<and> list_all (\<lambda>d. fst d < length (settlements s) + length r) (dispatched s)
      \<and> (dispatched s = [] \<or> snd (last (dispatched s)) = lastRequestTime s)
      \<and> (r = [] \<or> dispatched s \<noteq> [] \<and> r = [fst (last (dispatched s))])
      \<and> spaced (dispatched s))"

text \<open>
  \<open>queue_inv\<close>: at most one invocation of \<open>processQueue\<close> is suspended, the flag
  \<open>isProcessing\<close> is set exactly when there is one, the queue is empty when there is
  none, and a timer it waits for is due 100 ms after \<open>lastRequestTime\<close> or later.
\<close>

fun proc_inv :: "proc list \<Rightarrow> qstate \<Rightarrow> bool" where
  "proc_inv [] s = (translationQueue s = [])"
| "proc_inv [AwaitSlot due] s = (translationQueue s \<noteq> [] \<and> lastRequestTime s + 100 \<le> due)"
| "proc_inv [AwaitTask task] s = True"
| "proc_inv (p # q # ps) s = False"

definition queue_inv :: "qstate \<Rightarrow> bool" where
  "queue_inv s =
     (isProcessing s = (procs s \<noteq> [])
      \<and> proc_inv (procs s) s
      \<and> flow_inv (map handle (running (procs s))) s)"

text \<open>The state a returning or suspending invocation leaves, when it is the only one.\<close>

definition install :: "qstate \<times> proc option \<Rightarrow> qstate" where
  "install r = (case r of (s', None) \<Rightarrow> s'\<lparr>procs := []\<rparr> | (s', Some p) \<Rightarrow> s'\<lparr>procs := [p]\<rparr>)"

text \<open>What is left to do: two steps for each pending task, one more while a timer runs.\<close>

definition todo :: "qstate \<Rightarrow> nat" where
  "todo s = 2 * length (running (procs s) @ translationQueue s)
            + (case procs s of [AwaitSlot due] \<Rightarrow> 1 | _ \<Rightarrow> 0)"

text \<open>
  A run to evaluate the queue on: tasks \<open>a\<close>, \<open>b\<close> and \<open>c\<close> are submitted at time 1000,
  \<open>a\<close> succeeds, the processor waits 100 ms and dispatches \<open>b\<close>, whose operation is
  refused.
\<close>

definition op_ok :: "nat \<Rightarrow> error option" where
  "op_ok = (\<lambda>n. None)"

definition op_refused :: "nat \<Rightarrow> error option" where
  "op_refused = (\<lambda>n. Some (TranslationRefusedError (js ''text'') (js ''SAFETY'')))"

definition scenario_B :: "input list" where
  "scenario_B =
     [AddQueue (js ''a'') op_ok, AddQueue (js ''b'') op_refused, AddQueue (js ''c'') op_ok,
      Resume 0, Tick 100, Resume 0]"

section \<open>JavaScript string operations and regular expressions\<close>

text \<open>
  \<open>String.prototype.trim\<close> and the class \<open>\s\<close> use the same set of code units: the
  white space and the line terminators of ECMAScript.
\<close>

definition is_space :: "nat \<Rightarrow> bool" where
  "is_space c \<longleftrightarrow>
     c = 9 \<or> c = 10 \<or> c = 11 \<or> c = 12 \<or> c = 13 \<or> c = 32 \<or> c = 160 \<or> c = 5760
     \<or> (8192 \<le> c \<and> c \<le> 8202) \<or> c = 8232 \<or> c = 8233 \<or> c = 8239 \<or> c = 8287
     \<or> c = 12288 \<or> c = 65279"

definition trim :: "jstring \<Rightarrow> jstring" where
  "trim s = rev (dropWhile is_space (rev (dropWhile is_space s)))"

definition startsWith :: "jstring \<Rightarrow> jstring \<Rightarrow> bool" where
  "startsWith s p = (take (length p) s = p)"

text \<open>\<open>s.split('\n')\<close>: the pieces between the line feeds, at least one piece.\<close>

fun split_lines :: "jstring \<Rightarrow> jstring list" where
  "split_lines [] = [[]]"
| "split_lines (c # cs) =
     (if c = 10 then [] # split_lines cs
      else (case split_lines cs of l # ls \<Rightarrow> (c # l) # ls | [] \<Rightarrow> [[c]]))"

text \<open>\<open>lines.join('\n')\<close>.\<close>

fun join_lines :: "jstring list \<Rightarrow> jstring" where
  "join_lines [] = []"
| "join_lines [l] = l"
| "join_lines (l # ls) = l @ 10 # join_lines ls"

text \<open>
  The regular expressions of the sources are sequences of items over classes of one
  code unit: a class once, a greedy or lazy star, a greedy plus, the two ends of the
  capture group, and the end of the input.
\<close>

datatype cls = Lit nat | Except nat | Space | Any

fun mem :: "cls \<Rightarrow> nat \<Rightarrow> bool" where
  "mem (Lit d) c = (c = d)"
| "mem (Except d) c = (c \<noteq> d)"
| "mem Space c = is_space c"
| "mem Any c = True"

datatype rx = One cls | Star cls | Plus cls | Lazy cls | Open | Close | End

text \<open>
  \<open>rx_match r s\<close>: the backtracking match of \<open>r\<close> at the start of \<open>s\<close>. A greedy
  quantifier first takes one more code unit and falls back to the rest of the
  expression when that fails; a lazy one tries the rest of the expression first. The
  result is the input at the two ends of the capture group (when passed) and the input
  left after the match.
\<close>

type_synonym rx_result = "jstring option \<times> jstring option \<times> jstring"

fun rx_match :: "rx list \<Rightarrow> jstring \<Rightarrow> rx_result option" where
  "rx_match [] s = Some (None, None, s)"
| "rx_match (One c # r) s =
     (case s of [] \<Rightarrow> None | x # xs \<Rightarrow> if mem c x then rx_match r xs else None)"
| "rx_match (Star c # r) s =
     (case s of
        [] \<Rightarrow> rx_match r s
      | x # xs \<Rightarrow>
          if mem c x then
            (case rx_match (Star c # r) xs of Some res \<Rightarrow> Some res | None \<Rightarrow> rx_match r s)
          else rx_match r s)"
| "rx_match (Plus c # r) s =
     (case s of [] \<Rightarrow> None | x # xs \<Rightarrow> if mem c x then rx_match (Star c # r) xs else None)"
| "rx_match (Lazy c # r) s =
     (case rx_match r s of
        Some res \<Rightarrow> Some res
      | None \<Rightarrow>
          (case s of [] \<Rightarrow> None | x # xs \<Rightarrow> if mem c x then rx_match (Lazy c # r) xs else None))"
| "rx_match (Open # r) s =
     (case rx_match r s of None \<Rightarrow> None | Some (a, b, rest) \<Rightarrow> Some (Some s, b, rest))"
| "rx_match (Close # r) s =
     (case rx_match r s of None \<Rightarrow> None | Some (a, b, rest) \<Rightarrow> Some (a, Some s, rest))"
| "rx_match (End # r) s = (if s = [] then rx_match r s else None)"

text \<open>The text of the capture group: from its opening to its closing.\<close>

fun capture :: "rx_result \<Rightarrow> jstring" where
  "capture (Some a, Some b, rest) = take (length a - length b) a"
| "capture res = []"

text \<open>
  \<open>while ((match = regex.exec(s)) !== null)\<close> with the flag \<open>g\<close>: the captures of the
  matches from left to right, each search starting where the last match ended (one
  further after an empty match).
\<close>

function rx_exec_all :: "rx list \<Rightarrow> jstring \<Rightarrow> jstring list" where
  "rx_exec_all r s =
     (case rx_match r s of
        Some res \<Rightarrow>
          if length (snd (snd res)) < length s then capture res # rx_exec_all r (snd (snd res))
          else (case s of [] \<Rightarrow> [capture res] | x # xs \<Rightarrow> capture res # rx_exec_all r xs)
      | None \<Rightarrow> (case s of [] \<Rightarrow> [] | x # xs \<Rightarrow> rx_exec_all r xs))"
  by pat_completeness auto
termination
  by (relation "measure (\<lambda>(r, s). length s)") auto

text \<open>\<open>s.replace(regex, '')\<close> without the flag \<open>g\<close>: the leftmost match is removed.\<close>

fun replace_first :: "rx list \<Rightarrow> jstring \<Rightarrow> jstring" where
  "replace_first r [] = (case rx_match r [] of Some res \<Rightarrow> snd (snd res) | None \<Rightarrow> [])"
| "replace_first r (x # xs) =
     (case rx_match r (x # xs) of Some res \<Rightarrow> snd (snd res) | None \<Rightarrow> x # replace_first r xs)"

text \<open>\<open>s.replace(regex, '')\<close> with the flag \<open>g\<close>: every match is removed, from left to
  right.\<close>

function replace_all :: "rx list \<Rightarrow> jstring \<Rightarrow> jstring" where
  "replace_all r s =
     (case rx_match r s of
        Some res \<Rightarrow>
          if length (snd (snd res)) < length s then replace_all r (snd (snd res))
          else (case s of [] \<Rightarrow> [] | x # xs \<Rightarrow> x # replace_all r xs)
      | None \<Rightarrow> (case s of [] \<Rightarrow> [] | x # xs \<Rightarrow> x # replace_all r xs))"
  by pat_completeness auto
termination
  by (relation "measure (\<lambda>(r, s). length s)") auto

declare rx_exec_all.simps [simp del] replace_all.simps [simp del]

text \<open>A literal text as a regular expression.\<close>

definition lits :: "jstring \<Rightarrow> rx list" where
  "lits s = map (\<lambda>c. One (Lit c)) s"

section \<open>.github/actions/create-untranslated-issues/index.js\<close>

subsection \<open>The report and the tracking records\<close>

text \<open>
  A value read by \<open>JSON.parse\<close>. The properties of an object are its own properties,
  each name once.
\<close>

datatype json =
    JNull | JBool bool | JNum int | JStr jstring | JArr "json list"
  | JObj "(jstring \<times> json) list"

text \<open>\<open>!item\<close>: the falsy values.\<close>

fun falsy :: "json \<Rightarrow> bool" where
  "falsy JNull = True"
| "falsy (JBool b) = (\<not> b)"
| "falsy (JNum n) = (n = 0)"
| "falsy (JStr s) = (s = [])"
| "falsy v = False"

text \<open>
  \<open>typeof item.name === 'string'\<close>, with the string: a property read on anything but
  an object with that property gives \<open>undefined\<close> (none of the four names read here is
  a property of a prototype).
\<close>

fun string_prop :: "json \<Rightarrow> jstring \<Rightarrow> jstring option" where
  "string_prop (JObj ps) name = (case map_of ps name of Some (JStr s) \<Rightarrow> Some s | _ \<Rightarrow> None)"
| "string_prop v name = None"

record item =
  item_mod :: jstring
  item_file :: jstring
  item_key :: jstring
  item_message :: jstring

text \<open>Lines 61 to 70: the items with the four string properties; \<open>None\<close> for an item
  that is skipped.\<close>

definition checked :: "json \<Rightarrow> item option" where
  "checked v =
     (if falsy v then None
      else (case (string_prop v (js ''mod''), string_prop v (js ''file''),
                  string_prop v (js ''key''), string_prop v (js ''message'')) of
              (Some m, Some f, Some k, Some msg) \<Rightarrow>
                Some \<lparr>item_mod = m, item_file = f, item_key = k, item_message = msg\<rparr>
            | _ \<Rightarrow> None))"

text \<open>
  The parsed report: the text \<open>${data.timestamp}\<close> expands to, and the elements of
  \<open>data.items\<close>, an array. The report file is absent, or its content does not parse,
  or it parses to a report.
\<close>

record report =
  timestamp :: jstring
  items :: "json list"

datatype report_file = Absent | Malformed | Parsed report

text \<open>An issue returned by \<open>issues.listForRepo\<close>; \<open>issue.body\<close> may be \<open>null\<close>.\<close>

record issue =
  issue_number :: nat
  issue_title :: jstring
  issue_body :: "jstring option"

text \<open>What a run does, in order: its log entries and its calls of the issues API.\<close>

datatype effect =
    SetFailed_game_required
  | SetFailed_token_required
  | SetFailed_parse
  | Info_no_items
  | Warning_skipping json
  | Info_no_new_items nat
  | Warning_no_table
  | Issues_update nat jstring
  | Info_updated nat nat
  | Issues_create jstring jstring "jstring list"
  | Info_created
  | Error_parse
  | Issues_close nat jstring
  | Info_closed nat

subsection \<open>The literal texts, as UTF-16 code units\<close>

definition title_phrase :: jstring where
  "title_phrase =
     [93, 32, 48264, 50669, 32, 44144, 48512, 32, 54637, 47785, 32, 48156, 49373, 58,
     32]"

definition body_heading :: jstring where
  "body_heading =
     [35, 35, 32, 48264, 50669, 32, 44144, 48512, 32, 54637, 47785, 10, 10]"

definition game_label :: jstring where
  "game_label =
     [42, 42, 44172, 51076, 42, 42, 58, 32]"

definition mod_label :: jstring where
  "mod_label =
     [42, 42, 47784, 46300, 42, 42, 58, 32]"

definition time_label :: jstring where
  "time_label =
     [42, 42, 48156, 49373, 32, 49884, 44036, 42, 42, 58, 32]"

definition list_heading :: jstring where
  "list_heading =
     [35, 35, 35, 32, 54637, 47785, 32, 47785, 47197, 10, 10]"

definition table_header :: jstring where
  "table_header =
     [124, 32, 54028, 51068, 32, 124, 32, 53412, 32, 124, 32, 50896, 47928, 32, 124, 10]"

definition table_separator :: jstring where
  "table_separator =
     [124, 45, 45, 45, 45, 45, 45, 124, 45, 45, 45, 45, 45, 124, 45, 45, 45, 45, 45, 45,
     124, 10]"

definition details_open :: jstring where
  "details_open =
     [60, 100, 101, 116, 97, 105, 108, 115, 62, 60, 115, 117, 109, 109, 97, 114, 121,
     62, 51204, 52404, 32, 47700, 49884, 51648, 32, 48372, 44592, 60, 47, 115, 117, 109,
     109, 97, 114, 121, 62, 10, 10, 96, 96, 96, 10]"

definition details_close :: jstring where
  "details_close =
     [10, 96, 96, 96, 10, 10, 60, 47, 100, 101, 116, 97, 105, 108, 115, 62, 10]"

definition stamp_marker :: jstring where
  "stamp_marker =
     [42, 42, 47560, 51648, 47561, 32, 50629, 45936, 51060, 53944, 42, 42, 58]"

definition rule_line :: jstring where
  "rule_line =
     [10, 45, 45, 45, 10]"

definition footer_text :: jstring where
  "footer_text =
     [51060, 32, 51060, 49800, 45716, 32, 51088, 46041, 51004, 47196, 32, 49373, 49457,
     46104, 50632, 49845, 45768, 45796, 46, 32, 49688, 46041, 32, 48264, 50669, 51060,
     32, 54596, 50836, 54620, 32, 54637, 47785, 51077, 45768, 45796, 46, 10]"



text \<open>\<open>translation-refused\<close> and the three dots.\<close>

definition label_refused :: jstring where
  "label_refused = js ''translation-refused''"

definition ellipsis :: jstring where
  "ellipsis = js ''...''"

subsection \<open>Grouping\<close>

text \<open>Lines 22 to 24.\<close>

definition gameDisplayName :: "jstring \<Rightarrow> jstring" where
  "gameDisplayName game =
     (if game = js ''ck3'' then js ''CK3''
      else if game = js ''vic3'' then js ''VIC3''
      else if game = js ''stellaris'' then js ''Stellaris''
      else game)"

text \<open>Line 78.\<close>

definition title_of :: "jstring \<Rightarrow> jstring \<Rightarrow> jstring" where
  "title_of game m = 91 # gameDisplayName game @ title_phrase @ m"

text \<open>
  Lines 58 to 75: \<open>itemsByMod\<close>, here with its properties in the order they were
  created, and the warnings for the skipped items.
\<close>

fun push_item :: "item \<Rightarrow> (jstring \<times> item list) list \<Rightarrow> (jstring \<times> item list) list" where
  "push_item it [] = [(item_mod it, [it])]"
| "push_item it ((m, its) # gs) =
     (if m = item_mod it then (m, its @ [it]) # gs else (m, its) # push_item it gs)"

fun group_items :: "json list \<Rightarrow> (jstring \<times> item list) list \<Rightarrow> (jstring \<times> item list) list \<times> effect list" where
  "group_items [] gs = (gs, [])"
| "group_items (v # vs) gs =
     (case checked v of
        None \<Rightarrow> (case group_items vs gs of (gs', ws) \<Rightarrow> (gs', Warning_skipping v # ws))
      | Some it \<Rightarrow> group_items vs (push_item it gs))"

text \<open>
  \<open>Object.entries\<close> lists the properties whose name is an array index (a canonical
  decimal numeral below \<open>2^32 - 1\<close>) first, in increasing order, and then the others
  in the order of their creation.
\<close>

definition is_digit :: "nat \<Rightarrow> bool" where
  "is_digit c \<longleftrightarrow> 48 \<le> c \<and> c \<le> 57"

definition numeral_value :: "jstring \<Rightarrow> nat" where
  "numeral_value s = foldl (\<lambda>n c. 10 * n + (c - 48)) 0 s"

definition array_index :: "jstring \<Rightarrow> nat option" where
  "array_index s =
     (if s \<noteq> [] \<and> list_all is_digit s \<and> (hd s \<noteq> 48 \<or> length s = 1)
         \<and> length s \<le> 10 \<and> numeral_value s < 4294967295
      then Some (numeral_value s) else None)"

definition entries :: "(jstring \<times> 'a) list \<Rightarrow> (jstring \<times> 'a) list" where
  "entries gs =
     sort_key (\<lambda>g. the (array_index (fst g))) (filter (\<lambda>g. array_index (fst g) \<noteq> None) gs)
     @ filter (\<lambda>g. array_index (fst g) = None) gs"

subsection \<open>Rows\<close>

text \<open>\<open>s.replace(/c/g, rep)\<close> for a single code unit \<open>c\<close>.\<close>

definition replace_unit :: "nat \<Rightarrow> jstring \<Rightarrow> jstring \<Rightarrow> jstring" where
  "replace_unit c rep s = concat (map (\<lambda>x. if x = c then rep else [x]) s)"

text \<open>Lines 147 and 188: pipes, line feeds and backticks of the cell.\<close>

definition escapedMessage :: "jstring \<Rightarrow> jstring" where
  "escapedMessage rawMessage =
     replace_unit 96 [92, 96] (replace_unit 10 [32] (replace_unit 124 [92, 124] rawMessage))"

text \<open>Lines 153 and 194: pipes and backticks of the full message.\<close>

definition detailsMessage :: "jstring \<Rightarrow> jstring" where
  "detailsMessage rawMessage = replace_unit 96 [92, 96] (replace_unit 124 [92, 124] rawMessage)"

definition folded :: "jstring \<Rightarrow> bool" where
  "folded rawMessage \<longleftrightarrow> length rawMessage > 100 \<or> 10 \<in> set rawMessage"

definition displayMessage :: "jstring \<Rightarrow> jstring" where
  "displayMessage rawMessage =
     (if folded rawMessage then take 100 (escapedMessage rawMessage) @ ellipsis
      else escapedMessage rawMessage)"

definition detailsSection :: "jstring \<Rightarrow> jstring" where
  "detailsSection rawMessage =
     (if folded rawMessage then details_open @ detailsMessage rawMessage @ details_close
      else [])"

text \<open>Lines 146 to 159 and 187 to 200: the row of an item and its collapsible block.\<close>

definition row :: "item \<Rightarrow> jstring" where
  "row it =
     [124, 32] @ item_file it @ [32, 124, 32, 96] @ item_key it @ [96, 32, 124, 32]
     @ displayMessage (item_message it) @ [32, 124, 10]
     @ detailsSection (item_message it)"

definition rows :: "item list \<Rightarrow> jstring" where
  "rows its = concat (map row its)"

subsection \<open>A new record\<close>

text \<open>Lines 178 to 204.\<close>

definition new_body :: "jstring \<Rightarrow> jstring \<Rightarrow> jstring \<Rightarrow> item list \<Rightarrow> jstring" where
  "new_body game m ts its =
     body_heading
     @ game_label @ gameDisplayName game @ [10]
     @ mod_label @ m @ [10]
     @ time_label @ ts @ [10, 10]
     @ list_heading
     @ table_header
     @ table_separator
     @ rows its
     @ rule_line
     @ footer_text"

subsection \<open>An existing record\<close>

text \<open>Line 87: \<open>/\|\s*[^|]+\s*\|\s*`([^`]+)`\s*\|/g\<close>.\<close>

definition keyRegex :: "rx list" where
  "keyRegex =
     [One (Lit 124), Star Space, Plus (Except 124), Star Space, One (Lit 124), Star Space,
      One (Lit 96), Open, Plus (Except 96), Close, One (Lit 96), Star Space, One (Lit 124)]"

text \<open>Lines 86 to 91: the keys found in the body, in the order found.\<close>

definition existingKeys :: "jstring \<Rightarrow> jstring list" where
  "existingKeys existingBody = rx_exec_all keyRegex existingBody"

text \<open>Line 94.\<close>

definition newItems :: "jstring \<Rightarrow> item list \<Rightarrow> item list" where
  "newItems existingBody its = filter (\<lambda>it. item_key it \<notin> set (existingKeys existingBody)) its"

text \<open>Line 102: the marker, \<open>.*?\<close> with the flag \<open>s\<close>, \<open>\n+\<close>.\<close>

definition stamp_regex :: "rx list" where
  "stamp_regex = lits stamp_marker @ [Lazy Any, Plus (Lit 10)]"

text \<open>Line 103: \<open>/\n---\n[\s\S]*$/s\<close>.\<close>

definition footer_regex :: "rx list" where
  "footer_regex = lits rule_line @ [Star Any, End]"

definition stripped :: "jstring \<Rightarrow> jstring" where
  "stripped existingBody = replace_first footer_regex (replace_first stamp_regex existingBody)"

text \<open>Lines 107 to 113: the index of the first line that starts with a pipe.\<close>

fun tableStartLine :: "jstring list \<Rightarrow> nat option" where
  "tableStartLine [] = None"
| "tableStartLine (l # ls) =
     (if startsWith (trim l) [124] then Some 0
      else (case tableStartLine ls of None \<Rightarrow> None | Some i \<Rightarrow> Some (Suc i)))"

text \<open>Line 125: a line that belongs to the table.\<close>

definition table_line :: "jstring \<Rightarrow> bool" where
  "table_line l \<longleftrightarrow>
     (let line = trim l
      in startsWith line [124] \<or> startsWith line (js ''<details>'')
         \<or> startsWith line (js ''</details>'') \<or> line = [])"

text \<open>
  Lines 123 to 130: the loop over the lines from index \<open>i\<close> on, \<open>ls\<close> being those
  lines and \<open>e\<close> the value of \<open>tableEndLine\<close>.
\<close>

fun tableEndLine :: "jstring list \<Rightarrow> nat \<Rightarrow> nat \<Rightarrow> nat" where
  "tableEndLine [] i e = e"
| "tableEndLine (l # ls) i e = (if table_line l then tableEndLine ls (Suc i) i else e)"

text \<open>Lines 133 to 141.\<close>

definition insertPosition :: "jstring \<Rightarrow> jstring list \<Rightarrow> nat \<Rightarrow> nat" where
  "insertPosition updatedBody lines e =
     (if e > 0 then
        (let p = length (join_lines (take (e + 1) lines))
         in if p < length updatedBody then p + 1 else p)
      else length updatedBody)"

text \<open>
  Lines 102 to 166: the new body of an existing record, \<open>None\<close> when no line starts
  with a pipe (line 115).
\<close>

definition updated_body :: "jstring \<Rightarrow> jstring \<Rightarrow> item list \<Rightarrow> jstring option" where
  "updated_body existingBody ts its =
     (let updatedBody = stripped existingBody;
          lines = split_lines updatedBody
      in case tableStartLine lines of
           None \<Rightarrow> None
         | Some start \<Rightarrow>
             (let e = tableEndLine (drop (start + 2) lines) (start + 2) (start + 1);
                  p = insertPosition updatedBody lines e
              in Some (take p updatedBody @ rows its @ drop p updatedBody
                       @ [10] @ stamp_marker @ [32] @ ts @ [10, 10]
                       @ js ''---'' @ [10]
                       @ footer_text)))"

subsection \<open>The run\<close>

text \<open>Lines 78 to 214, for one group.\<close>

definition reconcile :: "jstring \<Rightarrow> jstring \<Rightarrow> issue list \<Rightarrow> jstring \<times> item list \<Rightarrow> effect list" where
  "reconcile game ts existingIssues g =
     (case g of (m, its) \<Rightarrow>
       (case find (\<lambda>i. issue_title i = title_of game m) existingIssues of
          Some existingIssue \<Rightarrow>
            (let existingBody = (case issue_body existingIssue of None \<Rightarrow> [] | Some b \<Rightarrow> b);
                 new = newItems existingBody its
             in if length new = 0 then [Info_no_new_items (issue_number existingIssue)]
                else (case updated_body existingBody ts new of
                        None \<Rightarrow> [Warning_no_table]
                      | Some b \<Rightarrow>
                          [Issues_update (issue_number existingIssue) b,
                           Info_updated (issue_number existingIssue) (length new)]))
        | None \<Rightarrow>
            [Issues_create (title_of game m) (new_body game m ts its) [label_refused, game],
             Info_created]))"

text \<open>
  \<open>run()\<close>. \<open>game\<close> and \<open>token\<close> are the two environment variables, empty when unset;
  \<open>existingIssues\<close> is what \<open>issues.listForRepo\<close> returns for the open issues with the
  two labels. The calls of the API are taken to succeed.
\<close>

definition run :: "jstring \<Rightarrow> jstring \<Rightarrow> report_file \<Rightarrow> issue list \<Rightarrow> effect list" where
  "run game token file existingIssues =
     (if game = [] then [SetFailed_game_required]
      else if token = [] then [SetFailed_token_required]
      else (case file of
              Absent \<Rightarrow> [Info_no_items]
            | Malformed \<Rightarrow> [SetFailed_parse]
            | Parsed data \<Rightarrow>
                if length (items data) = 0 then [Info_no_items]
                else (case group_items (items data) [] of
                        (itemsByMod, warnings) \<Rightarrow>
                          warnings
                          @ concat (map (reconcile game (timestamp data) existingIssues)
                                      (entries itemsByMod)))))"

subsection \<open>The key expression, computed directly\<close>

text \<open>
  What a match of \<open>keyRegex\<close> at the start of \<open>s\<close> is, without backtracking: a pipe, a
  non-empty stretch without pipe up to the next pipe, white space, a backtick, a
  non-empty stretch without backtick up to the next backtick (the key), white space and
  a pipe. The result is the key and the input after the match. That this is what
  \<open>rx_match keyRegex\<close> computes is proved below (\<open>keyRegex_key_match\<close>).
\<close>

definition key_match :: "jstring \<Rightarrow> (jstring \<times> jstring) option" where
  "key_match s =
     (case s of
        [] \<Rightarrow> None
      | c # r1 \<Rightarrow>
          if c \<noteq> 124 \<or> takeWhile (\<lambda>x. x \<noteq> 124) r1 = [] then None
          else (case dropWhile (\<lambda>x. x \<noteq> 124) r1 of
                  [] \<Rightarrow> None
                | p # r3 \<Rightarrow>
                    (case dropWhile is_space r3 of
                       [] \<Rightarrow> None
                     | b # r4 \<Rightarrow>
                         if b \<noteq> 96 \<or> takeWhile (\<lambda>x. x \<noteq> 96) r4 = [] then None
                         else (case dropWhile (\<lambda>x. x \<noteq> 96) r4 of
                                 [] \<Rightarrow> None
                               | q # r6 \<Rightarrow>
                                   (case dropWhile is_space r6 of
                                      [] \<Rightarrow> None
                                    | e # r7 \<Rightarrow>
                                        if e = 124
                                        then Some (takeWhile (\<lambda>x. x \<noteq> 96) r4, r7)
                                        else None)))))"

subsection \<open>Texts in which the key expression finds nothing\<close>

text \<open>
  \<open>armed r\<close>: after white space, \<open>r\<close> goes on with a backtick and a code unit that is
  not a backtick. A match needs this right after its second pipe.
\<close>

definition armed :: "jstring \<Rightarrow> bool" where
  "armed r = (case dropWhile is_space r of b # c # t \<Rightarrow> b = 96 \<and> c \<noteq> 96 | _ \<Rightarrow> False)"

text \<open>\<open>next_armed w\<close>: the first pipe of \<open>w\<close> is followed by an armed text.\<close>

definition next_armed :: "jstring \<Rightarrow> bool" where
  "next_armed w = (case dropWhile (\<lambda>x. x \<noteq> 124) w of [] \<Rightarrow> False | p # r \<Rightarrow> armed r)"

text \<open>\<open>quiet u w\<close>: in \<open>u\<close> followed by \<open>w\<close>, no pipe of \<open>u\<close> is followed by an armed text.\<close>

fun quiet :: "jstring \<Rightarrow> jstring \<Rightarrow> bool" where
  "quiet [] w = True"
| "quiet (c # u) w = ((c = 124 \<longrightarrow> \<not> armed (u @ w)) \<and> quiet u w)"

definition benign :: "jstring \<Rightarrow> bool" where
  "benign w \<longleftrightarrow> \<not> armed w \<and> \<not> next_armed w"

text \<open>A text that is quiet whatever benign text follows, decided on the text itself.\<close>

definition calm :: "jstring \<Rightarrow> bool" where
  "calm c \<longleftrightarrow> \<not> armed (c @ [124]) \<and> quiet c [124]"

text \<open>A text that contributes the keys \<open>ks\<close> to a scan, whatever benign text follows.\<close>

definition unit_of :: "jstring list \<Rightarrow> jstring \<Rightarrow> bool" where
  "unit_of ks c \<longleftrightarrow>
     (\<forall>w. benign w \<longrightarrow> existingKeys (c @ w) = ks @ existingKeys w \<and> benign (c @ w))"

text \<open>Every backtick of the text is preceded by a backslash; \<open>p\<close> is the code unit
  before the text.\<close>

fun guarded :: "nat \<Rightarrow> jstring \<Rightarrow> bool" where
  "guarded p [] = True"
| "guarded p (c # cs) = ((c = 96 \<longrightarrow> p = 92) \<and> guarded c cs)"

text \<open>An item whose row the key expression can read back: no backtick in the file and
  the key, and a key that is not empty.\<close>

definition plain_item :: "item \<Rightarrow> bool" where
  "plain_item it \<longleftrightarrow>
     96 \<notin> set (item_file it) \<and> item_key it \<noteq> [] \<and> 96 \<notin> set (item_key it)"

text \<open>The row of an item up to the pipe that ends the cell of the key.\<close>

definition row_head :: "item \<Rightarrow> jstring" where
  "row_head it = [124, 32] @ item_file it @ [32, 124, 32, 96] @ item_key it @ [96, 32, 124]"

text \<open>The text of a new record before its rows.\<close>

definition heading :: "jstring \<Rightarrow> jstring \<Rightarrow> jstring \<Rightarrow> jstring" where
  "heading game m ts =
     body_heading
     @ game_label @ gameDisplayName game @ [10]
     @ mod_label @ m @ [10]
     @ time_label @ ts @ [10, 10]
     @ list_heading
     @ table_header
     @ table_separator"

subsection \<open>Records made of whole lines\<close>






subsection \<open>The lines of a new record\<close>











section \<open>The action that closes the records (the source file with \<open>hasNoUntranslatedItems\<close>)\<close>






text \<open>The calls of the issues API among the effects of a run.\<close>

fun api_calls :: "effect list \<Rightarrow> effect list" where
  "api_calls [] = []"
| "api_calls (Issues_update n b # es) = Issues_update n b # api_calls es"
| "api_calls (Issues_create t b ls # es) = Issues_create t b ls # api_calls es"
| "api_calls (Issues_close n b # es) = Issues_close n b # api_calls es"
| "api_calls (e # es) = api_calls es"

section \<open>Predicates of the statements\<close>

text \<open>An element of \<open>items\<close> that is an object with the four string properties.\<close>

fun well_typed :: "json \<Rightarrow> bool" where
  "well_typed (JObj ps) =
     (\<forall>name \<in> set [js ''mod'', js ''file'', js ''key'', js ''message''].
        case map_of ps name of Some (JStr s) \<Rightarrow> True | _ \<Rightarrow> False)"
| "well_typed v = False"

fun is_failure :: "effect \<Rightarrow> bool" where
  "is_failure SetFailed_game_required = True"
| "is_failure SetFailed_token_required = True"
| "is_failure SetFailed_parse = True"
| "is_failure e = False"

text \<open>An item of group \<open>m\<close> to evaluate the runs on, as a value of the report and as
  the reconciler reads it.\<close>

definition sample_json :: json where
  "sample_json =
     JObj [(js ''mod'', JStr (js ''m'')), (js ''file'', JStr (js ''f.yml'')),
           (js ''key'', JStr (js ''EVENT.1'')), (js ''message'', JStr (js ''hello''))]"

definition sample_item :: item where
  "sample_item =
     \<lparr>item_mod = js ''m'', item_file = js ''f.yml'', item_key = js ''EVENT.1'',
      item_message = js ''hello''\<rparr>"

text \<open>An open record of group \<open>m\<close> of game \<open>ck3\<close> whose body has no table.\<close>

definition no_table_issue :: issue where
  "no_table_issue =
     \<lparr>issue_number = 7, issue_title = title_of (js ''ck3'') (js ''m''),
      issue_body = Some (js ''no table'')\<rparr>"

text \<open>An item whose key has a backtick.\<close>

definition tick_item :: item where
  "tick_item =
     \<lparr>item_mod = js ''m'', item_file = js ''f.yml'', item_key = js ''a`b'',
      item_message = js ''hello''\<rparr>"

text \<open>An item whose message has a pipe, a backtick and a line feed.\<close>

definition fold_item :: item where
  "fold_item =
     \<lparr>item_mod = js ''m'', item_file = js ''f.yml'', item_key = js ''EVENT.2'',
      item_message = js ''x|y`z'' @ [10] @ js ''w''\<rparr>"








section \<open>The retry executor: budget, schedule and refusals\<close>







lemma Call_in_retries: "Call n \<in> set (retries r k) \<longleftrightarrow> r < n \<and> n \<le> r + k"
  by (induction r k rule: retries.induct) auto








section \<open>The queue: its invariant\<close>


lemma spaced_snoc:
  "spaced (ds @ [d]) \<longleftrightarrow> spaced ds \<and> (ds = [] \<or> snd (last ds) + 100 \<le> snd d)"
  by (induction ds rule: spaced.induct) auto

lemma settled_handle_drain: "map settled_handle (drain q) = map handle q"
  by (induction q) auto

lemma length_drain: "length (drain q) = length q"
  by (induction q) auto

lemma flow_inv_clock: "flow_inv r (s\<lparr>clock := c\<rparr>) = flow_inv r s"
  by (simp add: flow_inv_def)

lemma proc_inv_clock: "proc_inv ps (s\<lparr>clock := c\<rparr>) = proc_inv ps s"
  by (induction ps s rule: proc_inv.induct) auto

lemma queue_inv_tick: "queue_inv s \<Longrightarrow> queue_inv (s\<lparr>clock := c\<rparr>)"
  by (simp add: queue_inv_def flow_inv_clock proc_inv_clock)

lemma queue_inv_initial: "queue_inv (initial now)"
  by (simp add: queue_inv_def initial_def flow_inv_def)

lemma upt_split_head:
  assumes "xs @ y # ys = [0..<n]"
  shows "y = length xs"
proof -
  have "length xs < n"
    using arg_cong [OF assms, of length] by simp
  moreover have "[0..<n] ! length xs = y"
    using assms by (metis nth_append_length)
  ultimately show ?thesis by simp
qed

text \<open>A dispatch from a state with no running task.\<close>

lemma queue_inv_dispatch:
  assumes "flow_inv [] s" and "isProcessing s"
    and "dispatched s = [] \<or> lastRequestTime s + 100 \<le> clock s"
  shows "queue_inv (install (dispatch s))"
proof (cases "translationQueue s")
  case Nil
  with assms show ?thesis
    by (simp add: dispatch_def install_def queue_inv_def flow_inv_def)
next
  case (Cons task rest)
  from assms(1) Cons have h: "handle task = length (settlements s)"
    using upt_split_head [of "map settled_handle (settlements s)" "handle task" "map handle rest"]
    by (simp add: flow_inv_def)
  show ?thesis
    using assms Cons h
    by (auto simp: dispatch_def install_def queue_inv_def flow_inv_def spaced_snoc
        sorted_wrt_append list_all_iff)
qed


lemma queue_inv_loop_head:
  assumes "flow_inv [] s" and "isProcessing s"
  shows "queue_inv (install (loop_head s))"
proof (cases "translationQueue s = []")
  case True
  with assms show ?thesis
    by (simp add: loop_head_def install_def queue_inv_def flow_inv_def)
next
  case False
  show ?thesis
  proof (cases "clock s - lastRequestTime s < 100")
    case True
    with False assms show ?thesis
      by (simp add: loop_head_def install_def queue_inv_def flow_inv_def Let_def)
  next
    case False
    then have "dispatched s = [] \<or> lastRequestTime s + 100 \<le> clock s" by simp
    from queue_inv_dispatch [OF assms this] False \<open>translationQueue s \<noteq> []\<close>
    show ?thesis by (simp add: loop_head_def Let_def)
  qed
qed

lemma queue_inv_after_task:
  assumes "queue_inv s" and "procs s = [AwaitTask task]"
  shows "queue_inv (install (after_task task s))"
proof (cases "fst (executeTaskWithRetry task 0)")
  case (Inr u)
  let ?s = "s\<lparr>settlements := settlements s @ [Resolve (handle task)]\<rparr>"
  from assms have "flow_inv [] ?s" "isProcessing ?s"
    by (auto simp: queue_inv_def flow_inv_def list_all_iff)
  from queue_inv_loop_head [OF this] Inr show ?thesis
    by (simp add: after_task_def)
next
  case (Inl e)
  with assms show ?thesis
    by (auto simp: after_task_def install_def queue_inv_def flow_inv_def list_all_iff
        settled_handle_drain length_drain)
qed

lemma resumed_install: "procs (fst r) = [p] \<Longrightarrow> resumed 0 r = install r"
  by (cases r) (auto simp: resumed_def install_def split: option.splits)

lemma procs_dispatch: "procs (fst (dispatch s)) = procs s"
  by (simp add: dispatch_def split: list.splits)

lemma procs_loop_head: "procs (fst (loop_head s)) = procs s"
  by (simp add: loop_head_def Let_def procs_dispatch)

lemma procs_after_task: "procs (fst (after_task task s)) = procs s"
  by (simp add: after_task_def procs_loop_head split: sum.splits)

lemma proc_inv_length: "proc_inv ps s \<Longrightarrow> ps = [] \<or> (\<exists>p. ps = [p])"
  by (induction ps s rule: proc_inv.induct) auto

lemma queue_inv_procs: "queue_inv s \<Longrightarrow> procs s = [] \<or> (\<exists>p. procs s = [p])"
  using proc_inv_length [of "procs s" s] by (simp add: queue_inv_def)

lemma queue_inv_addQueue:
  assumes "queue_inv s"
  shows "queue_inv (addQueue k newQueue s)"
proof -
  let ?t = "\<lparr>key = k, queue = newQueue, handle = next_handle s\<rparr>"
  let ?s = "s\<lparr>translationQueue := translationQueue s @ [?t], next_handle := next_handle s + 1\<rparr>"
  show ?thesis
  proof (cases "isProcessing s")
    case True
    with assms obtain p where p: "procs s = [p]"
      using queue_inv_procs [OF assms] by (auto simp: queue_inv_def)
    with assms True have "queue_inv ?s"
      by (cases p) (auto simp: queue_inv_def flow_inv_def)
    with True show ?thesis by (simp add: addQueue_def processQueue_def)
  next
    case False
    with assms have e: "procs s = []" by (simp add: queue_inv_def)
    let ?s' = "?s\<lparr>isProcessing := True\<rparr>"
    from assms e have "flow_inv [] ?s'" "isProcessing ?s'"
      by (auto simp: queue_inv_def flow_inv_def)
    from queue_inv_loop_head [OF this] have "queue_inv (install (loop_head ?s'))" .
    moreover have "procs (fst (loop_head ?s')) = []"
      using e by (simp add: procs_loop_head)
    then have "addQueue k newQueue s = install (loop_head ?s')"
      using False
      by (cases "loop_head ?s'")
         (auto simp: addQueue_def processQueue_def install_def split: option.splits)
    ultimately show ?thesis by simp
  qed
qed

lemma queue_inv_step:
  assumes "queue_inv s" and "step s i = Some s'"
  shows "queue_inv s'"
proof (cases i)
  case (Tick d)
  with assms show ?thesis by (auto simp: queue_inv_tick)
next
  case (AddQueue k newQueue)
  with assms show ?thesis by (auto simp: queue_inv_addQueue)
next
  case (Resume n)
  with assms(2) have n: "n < length (procs s)" by (auto split: if_splits)
  with queue_inv_procs [OF assms(1)] obtain p where p: "procs s = [p]" "n = 0" by auto
  show ?thesis
  proof (cases p)
    case (AwaitSlot due)
    with assms Resume p have s': "s' = resumed 0 (dispatch s)" and due: "due \<le> clock s"
      by (auto split: if_splits)
    from assms(1) p AwaitSlot due have "flow_inv [] s" "isProcessing s"
      "dispatched s = [] \<or> lastRequestTime s + 100 \<le> clock s"
      by (auto simp: queue_inv_def)
    from queue_inv_dispatch [OF this] have "queue_inv (install (dispatch s))" .
    moreover have "resumed 0 (dispatch s) = install (dispatch s)"
      using p by (intro resumed_install [of _ p]) (simp add: procs_dispatch)
    ultimately show ?thesis using s' by simp
  next
    case (AwaitTask task)
    with assms Resume p have s': "s' = resumed 0 (after_task task s)"
      by (auto split: if_splits)
    from queue_inv_after_task [OF assms(1)] p AwaitTask
    have "queue_inv (install (after_task task s))" by simp
    moreover have "resumed 0 (after_task task s) = install (after_task task s)"
      using p by (intro resumed_install [of _ p]) (simp add: procs_after_task)
    ultimately show ?thesis using s' by simp
  qed
qed

lemma queue_inv_run:
  "queue_inv s \<Longrightarrow> steps s is = Some s' \<Longrightarrow> queue_inv s'"
proof (induction "is" arbitrary: s)
  case Nil
  then show ?case by simp
next
  case (Cons i "is")
  then show ?case
    by (auto split: option.splits dest: queue_inv_step)
qed


lemma upt_split3:
  assumes "xs @ y # zs = [0..<n]"
  shows "xs = [0..<y] \<and> zs = [Suc y..<n] \<and> y < n"
proof -
  have y: "y = length xs" using assms by (rule upt_split_head)
  have lt: "y < n" using arg_cong [OF assms, of length] y by simp
  then have "[0..<n] = [0..<y] @ y # [Suc y..<n]"
    by (metis add_0 le0 upt_add_eq_append upt_conv_Cons less_imp_le_nat le_add_diff_inverse)
  with assms have "xs @ y # zs = [0..<y] @ y # [Suc y..<n]" by simp
  with y lt show ?thesis by simp
qed

lemma drain_map: "drain q = map (\<lambda>h. Reject h (Error abort_message)) (map handle q)"
  by (induction q) auto

lemma all_Resolve: "list_all is_Resolve xs \<Longrightarrow> xs = map Resolve (map settled_handle xs)"
proof (induction xs)
  case Nil
  then show ?case by simp
next
  case (Cons x xs)
  then show ?case by (cases x) auto
qed


lemma reachable_inv: "steps (initial now) ins = Some s \<Longrightarrow> queue_inv s"
  using queue_inv_run [OF queue_inv_initial] .

lemma upt_prefix:
  assumes "xs @ ys = [0..<n]"
  shows "xs = [0..<length xs]"
proof -
  have "length xs \<le> n" using arg_cong [OF assms, of length] by simp
  moreover have "xs = take (length xs) (xs @ ys)" by simp
  ultimately show ?thesis by (simp only: assms) (simp add: take_upt)
qed

text \<open>Every suspended processor can be driven to its end.\<close>

lemma run_append:
  "steps s (is @ is2) = (case steps s is of None \<Rightarrow> None | Some s' \<Rightarrow> steps s' is2)"
  by (induction "is" arbitrary: s) (auto split: option.splits)

lemma slot_progress:
  assumes "queue_inv s" and "procs s = [AwaitSlot due]"
  shows "\<exists>s'. steps s [Tick (nat (due - clock s)), Resume 0] = Some s'
            \<and> todo s' < todo s \<and> next_handle s' = next_handle s"
proof -
  from assms obtain task rest where q: "translationQueue s = task # rest"
    by (cases "translationQueue s") (auto simp: queue_inv_def)
  have "due \<le> clock s + int (nat (due - clock s))" by simp
  with assms(2) q show ?thesis
    by (simp add: dispatch_def resumed_def todo_def)
qed

lemma task_progress:
  assumes "queue_inv s" and "procs s = [AwaitTask task]"
  shows "\<exists>s'. steps s [Resume 0] = Some s'
            \<and> todo s' < todo s \<and> next_handle s' = next_handle s"
  using assms(2)
  by (cases "fst (executeTaskWithRetry task 0)"; cases "translationQueue s")
     (auto simp: after_task_def loop_head_def dispatch_def resumed_def todo_def Let_def)

lemma queue_drains:
  assumes "queue_inv s"
  shows "\<exists>is s'. steps s is = Some s' \<and> \<not> isProcessing s' \<and> next_handle s' = next_handle s"
  using assms
proof (induction "todo s" arbitrary: s rule: less_induct)
  case less
  from queue_inv_procs [OF less.prems] consider "procs s = []" | p where "procs s = [p]"
    by blast
  then show ?case
  proof cases
    case 1
    with less.prems have "steps s [] = Some s \<and> \<not> isProcessing s" by (simp add: queue_inv_def)
    then show ?thesis by blast
  next
    case 2
    have "\<exists>is s'. steps s is = Some s' \<and> todo s' < todo s \<and> next_handle s' = next_handle s"
    proof (cases p)
      case (AwaitSlot due)
      with 2 slot_progress [OF less.prems] show ?thesis by blast
    next
      case (AwaitTask task)
      with 2 task_progress [OF less.prems] show ?thesis by blast
    qed
    then obtain "is" s' where s': "steps s is = Some s'" "todo s' < todo s"
      "next_handle s' = next_handle s" by blast
    from queue_inv_run [OF less.prems s'(1)] have "queue_inv s'" .
    from less.hyps [OF s'(2) this] obtain is2 s'' where
      "steps s' is2 = Some s''" "\<not> isProcessing s''" "next_handle s'' = next_handle s'" by blast
    with s' have "steps s (is @ is2) = Some s'' \<and> \<not> isProcessing s'' \<and> next_handle s'' = next_handle s"
      by (simp add: run_append)
    then show ?thesis by blast
  qed
qed

text \<open>The run of the three tasks, evaluated.\<close>


lemma scenario_B_run:
  "steps (initial 1000) scenario_B =
     Some \<lparr>translationQueue = [\<lparr>key = js ''c'', queue = op_ok, handle = 2\<rparr>],
           lastRequestTime = 1100, isProcessing = True, clock = 1100,
           procs = [AwaitTask \<lparr>key = js ''b'', queue = op_refused, handle = 1\<rparr>],
           settlements = [Resolve 0], dispatched = [(0, 1000), (1, 1100)],
           next_handle = 3\<rparr>"
  by (simp add: scenario_B_def initial_def addQueue_def processQueue_def loop_head_def
      dispatch_def after_task_def resumed_def Let_def executeTaskWithRetry.simps op_ok_def)

section \<open>The queue: failure, order and spacing\<close>

text \<open>
  Claim C1. In any state the queue can reach in which the operation of task \<open>i\<close> is
  running and no task has failed before (all settlements so far are resolutions): when
  the executor ends in a failure \<open>e\<close>, the resumed processor leaves the tasks before
  \<open>i\<close> resolved, in submission order, then rejects task \<open>i\<close> with \<open>e\<close>, then rejects
  every task still queued with the queue-aborted error, in order; the queue is empty,
  the flag cleared and no invocation of the processor is left. A call of \<open>addQueue\<close>
  after that, at any time, starts a processor whose only pending task is the new one.
\<close>

theorem first_failure_aborts_queue:
  assumes "steps (initial now) ins = Some s"
    and "procs s = [AwaitTask task]"
    and "list_all is_Resolve (settlements s)"
    and "fst (executeTaskWithRetry task 0) = Inl e"
  shows "\<exists>s'. step s (Resume 0) = Some s'
          \<and> settlements s' = map Resolve [0..<handle task] @ Reject (handle task) e
                # map (\<lambda>h. Reject h (Error abort_message)) [Suc (handle task)..<next_handle s]
          \<and> translationQueue s' = [] \<and> \<not> isProcessing s' \<and> procs s' = []
          \<and> (\<forall>c k newQueue. \<exists>p.
                isProcessing (addQueue k newQueue (s'\<lparr>clock := c\<rparr>))
              \<and> procs (addQueue k newQueue (s'\<lparr>clock := c\<rparr>)) = [p]
              \<and> pending (addQueue k newQueue (s'\<lparr>clock := c\<rparr>)) = [next_handle s'])"
proof -
  have inv: "queue_inv s" using assms(1) by (rule reachable_inv)
  then have "map settled_handle (settlements s) @ map handle (running (procs s))
      @ map handle (translationQueue s) = [0..<next_handle s]"
    by (simp add: queue_inv_def flow_inv_def)
  with assms(2) have "map settled_handle (settlements s) @ handle task # map handle (translationQueue s)
      = [0..<next_handle s]"
    by simp
  from upt_split3 [OF this]
  have hs: "map settled_handle (settlements s) = [0..<handle task]"
    and q: "map handle (translationQueue s) = [Suc (handle task)..<next_handle s]" by auto
  let ?s' = "resumed 0 (after_task task s)"
  have st: "step s (Resume 0) = Some ?s'" using assms(2) by simp
  have s': "?s' = s\<lparr>settlements := settlements s @ Reject (handle task) e # drain (translationQueue s),
             translationQueue := [], isProcessing := False, procs := []\<rparr>"
    using assms(2,4) by (simp add: resumed_def after_task_def)
  have set: "settlements ?s' = map Resolve [0..<handle task] @ Reject (handle task) e
                # map (\<lambda>h. Reject h (Error abort_message)) [Suc (handle task)..<next_handle s]"
    using all_Resolve [OF assms(3)] hs q by (simp add: s' drain_map)
  have fresh: "\<exists>p. isProcessing (addQueue k newQueue (?s'\<lparr>clock := c\<rparr>))
              \<and> procs (addQueue k newQueue (?s'\<lparr>clock := c\<rparr>)) = [p]
              \<and> pending (addQueue k newQueue (?s'\<lparr>clock := c\<rparr>)) = [next_handle ?s']" for c k newQueue
    by (simp add: s' addQueue_def processQueue_def loop_head_def dispatch_def pending_def Let_def)
  from st set fresh show ?thesis
    by (intro exI [of _ ?s']) (simp add: s')
qed

theorem first_failure_aborts_queue_witness:
  "\<exists>s s'. steps (initial 1000) scenario_B = Some s
      \<and> step s (Resume 0) = Some s'
      \<and> settlements s' =
          [Resolve 0, Reject 1 (TranslationRefusedError (js ''text'') (js ''SAFETY'')),
           Reject 2 (Error abort_message)]
      \<and> translationQueue s' = [] \<and> \<not> isProcessing s' \<and> procs s' = []"
proof -
  let ?b = "\<lparr>key = js ''b'', queue = op_refused, handle = 1\<rparr>"
  let ?s = "\<lparr>translationQueue = [\<lparr>key = js ''c'', queue = op_ok, handle = 2\<rparr>],
           lastRequestTime = 1100, isProcessing = True, clock = 1100,
           procs = [AwaitTask ?b],
           settlements = [Resolve 0], dispatched = [(0, 1000), (1, 1100)],
           next_handle = 3\<rparr>"
  have 1: "steps (initial 1000) scenario_B = Some ?s" by (rule scenario_B_run)
  have 2: "procs ?s = [AwaitTask ?b]" by simp
  have 3: "list_all is_Resolve (settlements ?s)" by simp
  have 4: "fst (executeTaskWithRetry ?b 0)
             = Inl (TranslationRefusedError (js ''text'') (js ''SAFETY''))"
    by (simp add: executeTaskWithRetry.simps op_refused_def)
  have 5: "[0..<1] = [0::nat]" "[Suc 1..<3] = [2::nat]" by (simp_all add: upt_rec)
  from first_failure_aborts_queue [OF 1 2 3 4] 5 1 show ?thesis
    by auto
qed

text \<open>
  Claim C6. In every state the queue reaches, whatever calls of \<open>addQueue\<close>, clock
  ticks and settled promises led there: at most one invocation of \<open>processQueue\<close> is
  suspended, and \<open>isProcessing\<close> is set exactly when one is; at most one task's
  operation is running; the dispatches were made in strictly increasing order of
  submission, and every dispatched task is settled or is the running one; the settled
  tasks followed by the running and the queued ones are the tasks \<open>0, 1, ..\<close> submitted,
  so no task was settled twice and none is both unsettled and settled; when no
  processor is active every submitted task has been settled; and the processor can
  always be driven to its end, where every task submitted so far has been settled.
\<close>

theorem queue_invariants:
  assumes "steps (initial now) ins = Some s"
  shows "length (procs s) \<le> 1
       \<and> isProcessing s = (procs s \<noteq> [])
       \<and> length (running (procs s)) \<le> 1
       \<and> sorted_wrt (<) (map fst (dispatched s))
       \<and> set (map fst (dispatched s))
            \<subseteq> set (map settled_handle (settlements s)) \<union> set (map handle (running (procs s)))
       \<and> map settled_handle (settlements s) @ pending s = [0..<next_handle s]
       \<and> distinct (map settled_handle (settlements s))
       \<and> (\<not> isProcessing s \<longrightarrow> map settled_handle (settlements s) = [0..<next_handle s])
       \<and> (\<exists>is s'. steps s is = Some s' \<and> \<not> isProcessing s'
              \<and> map settled_handle (settlements s') = [0..<next_handle s])"
proof -
  have inv: "queue_inv s" using assms by (rule reachable_inv)
  have li: "\<exists>is s'. steps s is = Some s' \<and> \<not> isProcessing s'
              \<and> map settled_handle (settlements s') = [0..<next_handle s]"
  proof -
    from queue_drains [OF inv] obtain "is" s' where s': "steps s is = Some s'"
      "\<not> isProcessing s'" "next_handle s' = next_handle s" by blast
    from queue_inv_run [OF inv s'(1)] have inv': "queue_inv s'" .
    with s'(2) have "procs s' = []" by (simp add: queue_inv_def)
    with inv' have "map settled_handle (settlements s') = [0..<next_handle s']"
      by (auto simp: queue_inv_def flow_inv_def)
    with s' show ?thesis by auto
  qed
  from queue_inv_procs [OF inv] have len: "length (procs s) \<le> 1" by auto
  then have lr: "length (running (procs s)) \<le> 1"
    by (cases "procs s" rule: running.cases) auto
  from inv have fl: "isProcessing s = (procs s \<noteq> [])" by (simp add: queue_inv_def)
  from inv have all: "map settled_handle (settlements s) @ pending s = [0..<next_handle s]"
    by (simp add: queue_inv_def flow_inv_def pending_def)
  have "distinct (map settled_handle (settlements s) @ pending s)"
    by (simp only: all distinct_upt)
  then have di: "distinct (map settled_handle (settlements s))" by simp
  from inv have so: "sorted_wrt (<) (map fst (dispatched s))"
    by (simp add: queue_inv_def flow_inv_def)
  have pre: "map settled_handle (settlements s) @ map handle (running (procs s))
      = [0..<length (settlements s) + length (running (procs s))]"
    using upt_prefix [of "map settled_handle (settlements s) @ map handle (running (procs s))"
        "map handle (translationQueue s)" "next_handle s"] all
    by (simp add: pending_def)
  from inv have "list_all (\<lambda>d. fst d < length (settlements s) + length (running (procs s)))
      (dispatched s)"
    by (simp add: queue_inv_def flow_inv_def)
  then have "set (map fst (dispatched s))
      \<subseteq> set [0..<length (settlements s) + length (running (procs s))]"
    by (auto simp: list_all_iff)
  also have "\<dots> = set (map settled_handle (settlements s)) \<union> set (map handle (running (procs s)))"
    by (subst pre [symmetric]) simp
  finally have sub: "set (map fst (dispatched s))
      \<subseteq> set (map settled_handle (settlements s)) \<union> set (map handle (running (procs s)))" .
  have qu: "map settled_handle (settlements s) = [0..<next_handle s]" if "\<not> isProcessing s"
  proof -
    from that fl have "procs s = []" by simp
    with inv have "translationQueue s = []" by (simp add: queue_inv_def)
    with \<open>procs s = []\<close> all show ?thesis by (simp add: pending_def)
  qed
  from len fl lr so sub all di qu li show ?thesis by blast
qed

theorem queue_invariants_witness:
  "\<exists>s. steps (initial 1000) scenario_B = Some s
      \<and> length (procs s) = 1 \<and> isProcessing s
      \<and> map fst (dispatched s) = [0, 1]
      \<and> map settled_handle (settlements s) = [0]
      \<and> pending s = [1, 2]
      \<and> next_handle s = 3"
proof -
  from queue_invariants [OF scenario_B_run] scenario_B_run show ?thesis
    by (simp add: pending_def)
qed



section \<open>The reconciler: skipped items\<close>


lemma checked_well_typed: "checked v = None \<longleftrightarrow> \<not> well_typed v"
  by (cases v) (auto simp: checked_def split: option.splits json.splits)

lemma group_items_filter:
  "group_items vs gs =
     (fst (group_items (filter well_typed vs) gs),
      map Warning_skipping (filter (\<lambda>v. \<not> well_typed v) vs))"
proof (induction vs arbitrary: gs)
  case Nil
  then show ?case by simp
next
  case (Cons v vs)
  show ?case
  proof (cases "checked v")
    case None
    then have "\<not> well_typed v" by (simp add: checked_well_typed)
    with None Cons [of gs] show ?thesis by (simp split: prod.splits)
  next
    case (Some it)
    then have "well_typed v" using checked_well_typed [of v] by auto
    with Some Cons [of "push_item it gs"] show ?thesis by simp
  qed
qed

lemma group_items_valid: "snd (group_items (filter well_typed vs) gs) = []"
  using group_items_filter [of "filter well_typed vs" gs] by (simp add: prod_eq_iff)

lemma reconcile_no_failure: "e \<in> set (reconcile game ts existingIssues g) \<Longrightarrow> \<not> is_failure e"
  by (cases g) (auto simp: reconcile_def Let_def split: option.splits if_splits)

text \<open>
  Claim C10. For a run with its two inputs set and a report with at least one element:
  the effects are one warning for each element of \<open>items\<close> that is not an object with
  the four string properties, in order, followed by what the reconciler does with the
  groups formed from the other elements alone; the skipped elements are exactly those
  (\<open>checked\<close> gives none for them), and no effect of the run is a failure.
\<close>

theorem invalid_items_skipped:
  assumes "game \<noteq> []" and "token \<noteq> []" and "vs \<noteq> []"
  shows "run game token (Parsed \<lparr>timestamp = ts, items = vs\<rparr>) existingIssues
           = map Warning_skipping (filter (\<lambda>v. \<not> well_typed v) vs)
             @ concat (map (reconcile game ts existingIssues)
                         (entries (fst (group_items (filter well_typed vs) []))))
       \<and> (\<forall>v. checked v = None \<longleftrightarrow> \<not> well_typed v)
       \<and> list_all (\<lambda>e. \<not> is_failure e)
            (run game token (Parsed \<lparr>timestamp = ts, items = vs\<rparr>) existingIssues)"
proof -
  have r: "run game token (Parsed \<lparr>timestamp = ts, items = vs\<rparr>) existingIssues
           = map Warning_skipping (filter (\<lambda>v. \<not> well_typed v) vs)
             @ concat (map (reconcile game ts existingIssues)
                         (entries (fst (group_items (filter well_typed vs) []))))"
    using assms by (simp add: run_def group_items_filter [of vs "[]"])
  have "list_all (\<lambda>e. \<not> is_failure e)
            (run game token (Parsed \<lparr>timestamp = ts, items = vs\<rparr>) existingIssues)"
    unfolding r by (auto simp: list_all_iff dest: reconcile_no_failure)
  with r checked_well_typed show ?thesis by blast
qed

theorem invalid_items_skipped_witness:
  "run (js ''ck3'') (js ''t'')
       (Parsed \<lparr>timestamp = js ''T'', items = [JNull, sample_json, JNum 5]\<rparr>) []
     = [Warning_skipping JNull, Warning_skipping (JNum 5),
        Issues_create (title_of (js ''ck3'') (js ''m''))
          (new_body (js ''ck3'') (js ''m'') (js ''T'') [sample_item])
          [label_refused, js ''ck3''],
        Info_created]"
proof -
  have 1: "js ''ck3'' \<noteq> []" "js ''t'' \<noteq> []" "[JNull, sample_json, JNum 5] \<noteq> []"
    by (simp_all add: js_def)
  have 2: "well_typed sample_json"
    by (simp add: sample_json_def js_def)
  have 3: "checked sample_json = Some sample_item"
    by (simp add: checked_def sample_json_def sample_item_def js_def)
  have 4: "array_index (js ''m'') = None"
    by (simp add: array_index_def js_def is_digit_def)
  from invalid_items_skipped [OF 1, of "js ''T''" "[]"] 2 3 4 show ?thesis
    by (simp add: entries_def reconcile_def sample_item_def)
qed

section \<open>The reconciler: a record without a table\<close>


lemma rx_match_suffix:
  "rx_match r s = Some (a, b, rest) \<Longrightarrow> \<exists>pre. s = pre @ rest"
proof (induction r s arbitrary: a b rest rule: rx_match.induct)
  case (1 s)
  then show ?case by simp
next
  case (2 c r s)
  then show ?case
    by (cases s) (auto split: if_splits, metis append_Cons)
next
  case (3 c r s)
  show ?case
  proof (cases s)
    case Nil
    with 3 show ?thesis by auto
  next
    case (Cons x xs)
    show ?thesis
    proof (cases "mem c x")
      case False
      with 3 Cons show ?thesis by auto
    next
      case True
      show ?thesis
      proof (cases "rx_match (Star c # r) xs")
        case None
        with 3 Cons True show ?thesis by auto
      next
        case (Some res)
        with "3.prems" Cons True have "rx_match (Star c # r) xs = Some (a, b, rest)" by simp
        from "3.IH"(2) [OF Cons True this] show ?thesis using Cons by (metis append_Cons)
      qed
    qed
  qed
next
  case (4 c r s)
  then show ?case
    by (cases s) (auto split: if_splits, metis append_Cons)
next
  case (5 c r s)
  show ?case
  proof (cases "rx_match r s")
    case (Some res)
    with 5 show ?thesis by auto
  next
    case None
    with "5.prems" obtain x xs where s: "s = x # xs" "mem c x"
        "rx_match (Lazy c # r) xs = Some (a, b, rest)"
      by (cases s) (auto split: if_splits)
    from "5.IH"(2) [OF None s(1,2,3)] s(1) show ?thesis by (metis append_Cons)
  qed
next
  case (6 r s)
  then show ?case by (auto split: option.splits)
next
  case (7 r s)
  then show ?case by (auto split: option.splits)
next
  case (8 r s)
  then show ?case by (auto split: if_splits)
qed

lemma rx_match_rest_set: "rx_match r s = Some res \<Longrightarrow> set (snd (snd res)) \<subseteq> set s"
  using rx_match_suffix [of r s "fst res" "fst (snd res)" "snd (snd res)"] by auto

lemma set_replace_first: "set (replace_first r s) \<subseteq> set s"
proof (induction s)
  case Nil
  show ?case
  proof (cases "rx_match r []")
    case None
    then show ?thesis by simp
  next
    case (Some res)
    with rx_match_rest_set [OF Some] show ?thesis by simp
  qed
next
  case (Cons x xs)
  show ?case
  proof (cases "rx_match r (x # xs)")
    case None
    with Cons show ?thesis by auto
  next
    case (Some res)
    with rx_match_rest_set [OF Some] show ?thesis by simp
  qed
qed

lemma keyRegex_needs_pipe: "s = [] \<or> hd s \<noteq> 124 \<Longrightarrow> rx_match keyRegex s = None"
  by (cases s) (auto simp: keyRegex_def)

lemma existingKeys_no_pipe: "124 \<notin> set s \<Longrightarrow> existingKeys s = []"
  unfolding existingKeys_def
proof (induction s)
  case Nil
  then show ?case by (subst rx_exec_all.simps) (simp add: keyRegex_needs_pipe)
next
  case (Cons x xs)
  then show ?case by (subst rx_exec_all.simps) (simp add: keyRegex_needs_pipe)
qed

lemma set_split_lines: "l \<in> set (split_lines s) \<Longrightarrow> set l \<subseteq> set s"
proof (induction s arbitrary: l)
  case Nil
  then show ?case by simp
next
  case (Cons c cs)
  show ?case
  proof (cases "split_lines cs")
    case Nil
    with Cons.prems show ?thesis by (auto split: if_splits)
  next
    case (Cons a list)
    then have "set a \<subseteq> set cs" using Cons.IH [of a] by simp
    moreover have "set l' \<subseteq> set cs" if "l' \<in> set list" for l'
      using Cons.IH [of l'] Cons that by simp
    ultimately show ?thesis using Cons.prems Cons
      by (auto split: if_splits)
  qed
qed

lemma set_trim: "set (trim l) \<subseteq> set l"
  unfolding trim_def
  by (metis set_dropWhileD set_rev subsetI)

lemma tableStartLine_no_pipe:
  "\<forall>l \<in> set ls. 124 \<notin> set l \<Longrightarrow> tableStartLine ls = None"
proof (induction ls)
  case Nil
  then show ?case by simp
next
  case (Cons l ls)
  have "\<not> startsWith (trim l) [124]"
  proof
    assume "startsWith (trim l) [124]"
    then have "124 \<in> set (trim l)"
      by (cases "trim l") (auto simp: startsWith_def)
    with set_trim [of l] Cons.prems show False by auto
  qed
  with Cons show ?case by simp
qed

lemma updated_body_no_pipe:
  assumes "124 \<notin> set body"
  shows "updated_body body ts its = None"
proof -
  have "124 \<notin> set (stripped body)"
    using assms set_replace_first [of footer_regex "replace_first stamp_regex body"]
      set_replace_first [of stamp_regex body]
    by (auto simp: stripped_def)
  then have "\<forall>l \<in> set (split_lines (stripped body)). 124 \<notin> set l"
    using set_split_lines by blast
  then have "tableStartLine (split_lines (stripped body)) = None"
    by (rule tableStartLine_no_pipe)
  then show ?thesis by (simp add: updated_body_def)
qed

text \<open>
  Claim C9, as stated, fails: for the record \<open>no_table_issue\<close>, whose body has no table,
  the key extraction gives no key and the item of the batch is new, but the run makes no
  call of the issues API for the group: the item is not written to the record.
\<close>

theorem no_table_counterexample:
  "existingKeys (js ''no table'') = []
   \<and> newItems (js ''no table'') [sample_item] = [sample_item]
   \<and> api_calls (reconcile (js ''ck3'') (js ''T'') [no_table_issue] (js ''m'', [sample_item])) = []"
proof -
  have "124 \<notin> set (js ''no table'')" by (simp add: js_def)
  then show ?thesis
    by (simp add: existingKeys_no_pipe newItems_def reconcile_def updated_body_no_pipe
        no_table_issue_def)
qed

text \<open>
  Claim C9, amended. For an open record of the group whose body contains no pipe, and
  so no table: the key extraction gives no key (it does not fail), every item of the
  batch is new, and the reconciler, finding no line of a table, logs the warning of
  line 116 and goes on to the next group without updating the record.
\<close>

theorem no_table_update_skipped:
  assumes "124 \<notin> set body" and "its \<noteq> []"
    and "find (\<lambda>i. issue_title i = title_of game m) existingIssues = Some i"
    and "issue_body i = Some body"
  shows "existingKeys body = []
       \<and> newItems body its = its
       \<and> reconcile game ts existingIssues (m, its) = [Warning_no_table]"
  using assms
  by (simp add: existingKeys_no_pipe newItems_def reconcile_def updated_body_no_pipe)

theorem no_table_update_skipped_witness:
  "reconcile (js ''ck3'') (js ''T'') [no_table_issue] (js ''m'', [sample_item])
     = [Warning_no_table]"
proof -
  have 1: "124 \<notin> set (js ''no table'')" by (simp add: js_def)
  have 2: "[sample_item] \<noteq> []" by simp
  have 3: "find (\<lambda>i. issue_title i = title_of (js ''ck3'') (js ''m'')) [no_table_issue]
             = Some no_table_issue"
    by (simp add: no_table_issue_def)
  have 4: "issue_body no_table_issue = Some (js ''no table'')"
    by (simp add: no_table_issue_def)
  from no_table_update_skipped [OF 1 2 3 4] show ?thesis by simp
qed

section \<open>The key expression\<close>


lemma star_skip:
  assumes "\<And>x xs. mem c x \<Longrightarrow> rx_match R (x # xs) = None"
  shows "rx_match (Star c # R) s = rx_match R (dropWhile (mem c) s)"
proof (induction s)
  case Nil
  then show ?case by simp
next
  case (Cons x xs)
  show ?case
  proof (cases "mem c x")
    case True
    then have "rx_match R (x # xs) = None" by (rule assms)
    with True Cons show ?thesis by (simp split: option.splits)
  next
    case False
    then show ?thesis by simp
  qed
qed

lemma not_space_pipe: "\<not> is_space 124" and not_space_tick: "\<not> is_space 96"
  by (simp_all add: is_space_def)

lemma star_space_lit:
  assumes "\<not> is_space d"
  shows "rx_match (Star Space # One (Lit d) # r) s
           = rx_match (One (Lit d) # r) (dropWhile is_space s)"
proof -
  have "rx_match (Star Space # One (Lit d) # r) s
           = rx_match (One (Lit d) # r) (dropWhile (mem Space) s)"
    using assms by (intro star_skip) auto
  moreover have "mem Space = is_space" by (rule ext) simp
  ultimately show ?thesis by simp
qed

lemma mem_Except: "mem (Except d) = (\<lambda>x. x \<noteq> d)"
  by (rule ext) simp

lemma star_except_lit:
  "rx_match (Star (Except d) # One (Lit d) # r) s
     = rx_match (One (Lit d) # r) (dropWhile (\<lambda>x. x \<noteq> d) s)"
  using star_skip [of "Except d" "One (Lit d) # r" s] by (simp add: mem_Except)

lemma star_except_close_lit:
  "rx_match (Star (Except d) # Close # One (Lit d) # r) s
     = rx_match (Close # One (Lit d) # r) (dropWhile (\<lambda>x. x \<noteq> d) s)"
  using star_skip [of "Except d" "Close # One (Lit d) # r" s] by (simp add: mem_Except)

lemma dropWhile_weaker:
  assumes "\<And>z. P z \<Longrightarrow> Q z" and "dropWhile P xs = y # ys" and "\<not> Q y"
  shows "dropWhile Q xs = y # ys"
  using assms(2)
proof (induction xs)
  case Nil
  then show ?case by simp
next
  case (Cons x xs)
  then show ?case using assms(1,3) by (cases "P x") auto
qed

text \<open>The stretch before the second pipe: however the white space is divided between
  the three quantifiers, the match goes on at the next pipe.\<close>

lemma seg_star:
  "rx_match (Star (Except 124) # Star Space # One (Lit 124) # r) s
     = rx_match (One (Lit 124) # r) (dropWhile (\<lambda>x. x \<noteq> 124) s)"
proof (induction s)
  case Nil
  then show ?case by simp
next
  case (Cons x xs)
  let ?R = "One (Lit 124) # r"
  show ?case
  proof (cases "x = 124")
    case True
    then show ?thesis by (simp add: not_space_pipe)
  next
    case False
    show ?thesis
    proof (cases "rx_match (Star (Except 124) # Star Space # ?R) xs")
      case (Some res)
      with False Cons show ?thesis by simp
    next
      case None
      with Cons have n: "rx_match ?R (dropWhile (\<lambda>x. x \<noteq> 124) xs) = None" by simp
      have "rx_match (Star Space # ?R) (x # xs) = None"
      proof (cases "is_space x")
        case False
        with \<open>x \<noteq> 124\<close> show ?thesis by simp
      next
        case True
        have "rx_match (Star Space # ?R) (x # xs) = rx_match ?R (dropWhile is_space (x # xs))"
          by (rule star_space_lit) (rule not_space_pipe)
        also have "\<dots> = None"
        proof (cases "dropWhile is_space (x # xs)")
          case Nil
          then show ?thesis by simp
        next
          case (Cons y ys)
          show ?thesis
          proof (cases "y = 124")
            case False
            with Cons show ?thesis by simp
          next
            case True
            have "dropWhile (\<lambda>x. x \<noteq> 124) (x # xs) = dropWhile is_space (x # xs)"
            proof -
              have "is_space z \<Longrightarrow> z \<noteq> 124" for z using not_space_pipe by auto
              from dropWhile_weaker [of is_space "\<lambda>x. x \<noteq> 124", OF this Cons] True Cons
              show ?thesis by simp
            qed
            with n False show ?thesis by simp
          qed
        qed
        finally show ?thesis .
      qed
      with None False n show ?thesis by simp
    qed
  qed
qed

lemma seg_plus:
  "rx_match (Plus (Except 124) # Star Space # One (Lit 124) # r) s
     = (if takeWhile (\<lambda>x. x \<noteq> 124) s = [] then None
        else rx_match (One (Lit 124) # r) (dropWhile (\<lambda>x. x \<noteq> 124) s))"
  by (cases s) (simp_all del: rx_match.simps(3) add: seg_star)

lemma seg_all:
  "rx_match (Star Space # Plus (Except 124) # Star Space # One (Lit 124) # r) s
     = (if takeWhile (\<lambda>x. x \<noteq> 124) s = [] then None
        else rx_match (One (Lit 124) # r) (dropWhile (\<lambda>x. x \<noteq> 124) s))"
proof (induction s)
  case Nil
  then show ?case by simp
next
  case (Cons x xs)
  let ?P = "Plus (Except 124) # Star Space # One (Lit 124) # r"
  show ?case
  proof (cases "is_space x")
    case False
    then show ?thesis using seg_plus [of r "x # xs"] by simp
  next
    case True
    then have x: "x \<noteq> 124" using not_space_pipe by auto
    have p: "rx_match ?P (x # xs) = rx_match (One (Lit 124) # r) (dropWhile (\<lambda>x. x \<noteq> 124) xs)"
      using x seg_plus [of r "x # xs"] by simp
    show ?thesis
    proof (cases "rx_match (Star Space # ?P) xs")
      case None
      with True p x show ?thesis by simp
    next
      case (Some res)
      with Cons have "rx_match (One (Lit 124) # r) (dropWhile (\<lambda>x. x \<noteq> 124) xs) = Some res"
        by (simp split: if_splits)
      with True Some x show ?thesis by simp
    qed
  qed
qed


lemma plus_except_close_lit:
  "rx_match (Plus (Except d) # Close # One (Lit d) # r) s
     = (if takeWhile (\<lambda>x. x \<noteq> d) s = [] then None
        else rx_match (Close # One (Lit d) # r) (dropWhile (\<lambda>x. x \<noteq> d) s))"
  by (cases s) (simp_all del: rx_match.simps(3) add: star_except_close_lit)

lemma length_takeWhile_diff:
  "length xs - length (dropWhile P xs) = length (takeWhile P xs)"
  by (induction xs) (auto simp: Suc_diff_le length_dropWhile_le)

lemma take_takeWhile: "take (length (takeWhile P xs)) xs = takeWhile P xs"
  by (induction xs) auto

lemma dropWhile_head: "dropWhile P xs = y # ys \<Longrightarrow> \<not> P y"
  using hd_dropWhile [of P xs] by auto

text \<open>The backtracking match of the key expression is the direct one.\<close>

lemma keyRegex_key_match:
  "map_option (\<lambda>res. (capture res, snd (snd res))) (rx_match keyRegex s) = key_match s"
proof (cases s)
  case Nil
  then show ?thesis by (simp add: keyRegex_def key_match_def)
next
  case (Cons c r1)
  let ?r' = "[Star Space, One (Lit 96), Open, Plus (Except 96), Close, One (Lit 96),
              Star Space, One (Lit 124)]"
  have 1: "rx_match keyRegex (c' # r1') =
      (if c' \<noteq> 124 \<or> takeWhile (\<lambda>x. x \<noteq> 124) r1' = [] then None
       else rx_match (One (Lit 124) # ?r') (dropWhile (\<lambda>x. x \<noteq> 124) r1'))" for c' r1'
    by (simp del: rx_match.simps(3,4) add: keyRegex_def seg_all)
  have 2: "rx_match (One (Lit 124) # ?r') (p # r3) =
      (if p \<noteq> 124 then None
       else rx_match (One (Lit 96) # Open # Plus (Except 96) # Close # One (Lit 96) #
              Star Space # One (Lit 124) # []) (dropWhile is_space r3))" for p r3
    by (simp del: rx_match.simps(3,4) add: star_space_lit not_space_tick)
  have 3: "rx_match (One (Lit 96) # Open # Plus (Except 96) # Close # One (Lit 96) #
              Star Space # One (Lit 124) # []) (b # r4) =
      (if b \<noteq> 96 \<or> takeWhile (\<lambda>x. x \<noteq> 96) r4 = [] then None
       else (case rx_match (Close # One (Lit 96) # Star Space # One (Lit 124) # [])
                (dropWhile (\<lambda>x. x \<noteq> 96) r4) of
               None \<Rightarrow> None | Some (a, b, rest) \<Rightarrow> Some (Some r4, b, rest)))" for b r4
    by (simp del: rx_match.simps(3,4) add: plus_except_close_lit)
  have 4: "rx_match (Close # One (Lit 96) # Star Space # One (Lit 124) # []) (q # r6) =
      (if q \<noteq> 96 then None
       else (case rx_match [One (Lit 124)] (dropWhile is_space r6) of
               None \<Rightarrow> None | Some (a, b, rest) \<Rightarrow> Some (a, Some (q # r6), rest)))" for q r6
    by (simp del: rx_match.simps(3,4) add: star_space_lit not_space_pipe)
  have 8: "rx_match [One (Lit 124)] xs =
      (case xs of [] \<Rightarrow> None | e # r7 \<Rightarrow> if e = 124 then Some (None, None, r7) else None)" for xs
    by (cases xs) simp_all
  have 5: "rx_match (Close # One (Lit 96) # Star Space # One (Lit 124) # []) [] = None"
    by simp
  have 6: "rx_match (One (Lit 96) # Open # Plus (Except 96) # Close # One (Lit 96) #
              Star Space # One (Lit 124) # []) [] = None"
    by simp
  have 7: "rx_match (One (Lit 124) # ?r') [] = None"
    by simp
  show ?thesis
  proof (cases "c \<noteq> 124 \<or> takeWhile (\<lambda>x. x \<noteq> 124) r1 = []")
    case True
    then show ?thesis by (auto simp del: rx_match.simps simp add: Cons 1 key_match_def)
  next
    case False
    show ?thesis
    proof (cases "dropWhile (\<lambda>x. x \<noteq> 124) r1")
      case Nil
      show ?thesis using False by (simp del: rx_match.simps add: Cons 1 key_match_def Nil 7)
    next
      case c2: (Cons p r3)
      then have p: "p = 124" using dropWhile_head [OF c2] by simp
      show ?thesis
      proof (cases "dropWhile is_space r3")
        case Nil
        show ?thesis using False p by (simp del: rx_match.simps add: Cons 1 key_match_def c2 2 6 Nil)
      next
        case c3: (Cons b r4)
        show ?thesis
        proof (cases "b \<noteq> 96 \<or> takeWhile (\<lambda>x. x \<noteq> 96) r4 = []")
          case True
          show ?thesis using False p True
            by (auto simp del: rx_match.simps simp add: Cons 1 key_match_def c2 2 3 c3)
        next
          case f2: False
          show ?thesis
          proof (cases "dropWhile (\<lambda>x. x \<noteq> 96) r4")
            case Nil
            show ?thesis using False p f2
              by (simp del: rx_match.simps add: Cons 1 key_match_def c2 2 3 5 c3 Nil)
          next
            case c4: (Cons q r6)
            then have q: "q = 96" using dropWhile_head [OF c4] by simp
            have cap: "length r4 - Suc (length r6) = length (takeWhile (\<lambda>x. x \<noteq> 96) r4)"
              using length_takeWhile_diff [of r4 "\<lambda>x. x \<noteq> 96"] c4 by simp
            show ?thesis
            proof (cases "dropWhile is_space r6")
              case Nil
              show ?thesis using False p f2 q
                by (simp del: rx_match.simps add: Cons 1 key_match_def c2 2 3 4 8 c3 c4 Nil)
            next
              case c5: (Cons e r7)
              show ?thesis using False p f2 q cap
                by (simp del: rx_match.simps
                    add: Cons 1 key_match_def c2 2 3 4 8 c3 c4 c5 take_takeWhile)
            qed
          qed
        qed
      qed
    qed
  qed
qed

section \<open>Scanning for keys\<close>


lemma key_match_shorter: "key_match s = Some (k, rest) \<Longrightarrow> length rest < length s"
proof -
  assume a: "key_match s = Some (k, rest)"
  have d: "length (dropWhile P xs) \<le> length xs" for P and xs :: jstring
    by (rule length_dropWhile_le)
  from a obtain r1 p r3 b r4 q r6 e where
    "s = 124 # r1" "dropWhile (\<lambda>x. x \<noteq> 124) r1 = p # r3" "dropWhile is_space r3 = b # r4"
    "dropWhile (\<lambda>x. x \<noteq> 96) r4 = q # r6" "dropWhile is_space r6 = e # rest"
    by (auto simp: key_match_def split: list.splits if_splits)
  then show ?thesis
    using d [of "\<lambda>x. x \<noteq> 124" r1] d [of is_space r3] d [of "\<lambda>x. x \<noteq> 96" r4] d [of is_space r6]
    by simp
qed

lemma existingKeys_step:
  "existingKeys s =
     (case key_match s of
        Some (k, rest) \<Rightarrow> k # existingKeys rest
      | None \<Rightarrow> (case s of [] \<Rightarrow> [] | x # xs \<Rightarrow> existingKeys xs))"
proof (cases "rx_match keyRegex s")
  case None
  with keyRegex_key_match [of s] have "key_match s = None" by simp
  with None show ?thesis
    unfolding existingKeys_def by (subst rx_exec_all.simps) simp
next
  case (Some res)
  with keyRegex_key_match [of s] have k: "key_match s = Some (capture res, snd (snd res))"
    by simp
  from key_match_shorter [OF this] have "length (snd (snd res)) < length s" .
  with Some k show ?thesis
    unfolding existingKeys_def by (subst rx_exec_all.simps) simp
qed

lemma existingKeys_Nil: "existingKeys [] = []"
  by (subst existingKeys_step) (simp add: key_match_def)

lemma key_match_next_armed:
  assumes "key_match (c # r1) \<noteq> None"
  shows "c = 124 \<and> next_armed r1"
proof -
  from assms obtain p r3 r4 where c: "c = 124"
    and 1: "dropWhile (\<lambda>x. x \<noteq> 124) r1 = p # r3"
    and 2: "dropWhile is_space r3 = 96 # r4"
    and 3: "takeWhile (\<lambda>x. x \<noteq> 96) r4 \<noteq> []"
    by (auto simp: key_match_def split: list.splits if_splits)
  from 3 obtain d r5 where "r4 = d # r5" "d \<noteq> 96"
    by (cases r4) (auto split: if_splits)
  with 1 2 c show ?thesis
    by (simp add: next_armed_def armed_def)
qed

lemma existingKeys_skip1:
  assumes "c \<noteq> 124 \<or> \<not> next_armed r1"
  shows "existingKeys (c # r1) = existingKeys r1"
proof -
  have "key_match (c # r1) = None"
    using assms key_match_next_armed [of c r1] by blast
  then show ?thesis
    by (subst existingKeys_step) simp
qed

lemma next_armed_Cons:
  "next_armed (c # u) = (if c = 124 then armed u else next_armed u)"
  by (simp add: next_armed_def)

lemma next_armed_quiet: "quiet u w \<Longrightarrow> \<not> next_armed w \<Longrightarrow> \<not> next_armed (u @ w)"
  by (induction u) (auto simp: next_armed_Cons)

lemma existingKeys_quiet:
  "quiet u w \<Longrightarrow> \<not> next_armed w \<Longrightarrow> existingKeys (u @ w) = existingKeys w"
proof (induction u)
  case Nil
  then show ?case by simp
next
  case (Cons c u)
  then have "\<not> next_armed (u @ w)" by (simp add: next_armed_quiet)
  then have "existingKeys (c # u @ w) = existingKeys (u @ w)"
    by (simp add: existingKeys_skip1)
  with Cons show ?case by simp
qed

lemma armed_Cons:
  "armed (c # r) = (if is_space c then armed r else c = 96 \<and> r \<noteq> [] \<and> hd r \<noteq> 96)"
  by (cases r) (simp_all add: armed_def)

lemma armed_Nil: "\<not> armed []"
  by (simp add: armed_def)

lemma armed_append_pipe: "\<not> armed (x @ [124]) \<Longrightarrow> \<not> armed w \<Longrightarrow> \<not> armed (x @ w)"
proof (induction x)
  case Nil
  then show ?case by simp
next
  case (Cons c x)
  then show ?case by (cases x) (auto simp: armed_Cons split: if_splits)
qed

lemma quiet_pipe: "quiet c [124] \<Longrightarrow> \<not> armed w \<Longrightarrow> quiet c w"
  by (induction c) (auto dest: armed_append_pipe)

lemma quiet_append: "quiet (a @ b) w = (quiet a (b @ w) \<and> quiet b w)"
  by (induction a) auto

lemma calm_append: "calm a \<Longrightarrow> calm b \<Longrightarrow> calm (a @ b)"
  unfolding calm_def
  using armed_append_pipe [of a "b @ [124]"] quiet_pipe [of a "b @ [124]"]
  by (auto simp: quiet_append)

lemma calm_Nil: "calm []"
  by (simp add: calm_def armed_def not_space_pipe)

lemma calm_concat: "(\<And>c. c \<in> set cs \<Longrightarrow> calm c) \<Longrightarrow> calm (concat cs)"
  by (induction cs) (auto simp: calm_Nil calm_append)

lemma calm_unit: "calm c \<Longrightarrow> unit_of [] c"
  unfolding calm_def unit_of_def benign_def
  using armed_append_pipe [of c] quiet_pipe [of c]
  by (auto simp: existingKeys_quiet next_armed_quiet)

lemma unit_append: "unit_of k1 c1 \<Longrightarrow> unit_of k2 c2 \<Longrightarrow> unit_of (k1 @ k2) (c1 @ c2)"
  unfolding unit_of_def by simp

lemma no_tick_not_armed: "96 \<notin> set x \<Longrightarrow> \<not> armed w \<Longrightarrow> \<not> armed (x @ w)"
  by (induction x) (auto simp: armed_Cons)

lemma no_tick_quiet: "96 \<notin> set x \<Longrightarrow> \<not> armed w \<Longrightarrow> quiet x w"
  by (induction x) (auto simp: no_tick_not_armed)

lemma no_tick_calm: "96 \<notin> set x \<Longrightarrow> calm x"
  unfolding calm_def
  by (simp add: no_tick_not_armed no_tick_quiet armed_Cons armed_Nil not_space_pipe)

lemma no_tick_benign: "96 \<notin> set w \<Longrightarrow> benign w"
proof -
  assume a: "96 \<notin> set w"
  have "\<not> armed (w @ [])" using a by (intro no_tick_not_armed) (simp_all add: armed_Nil)
  moreover have "quiet w []" using a by (intro no_tick_quiet) (simp_all add: armed_Nil)
  then have "\<not> next_armed (w @ [])" by (rule next_armed_quiet) (simp add: next_armed_def)
  ultimately show ?thesis by (simp add: benign_def)
qed

lemma no_tick_no_keys: "96 \<notin> set w \<Longrightarrow> existingKeys w = []"
proof -
  assume a: "96 \<notin> set w"
  have "quiet w []" using a by (intro no_tick_quiet) (simp_all add: armed_Nil)
  then have "existingKeys (w @ []) = existingKeys []"
    by (rule existingKeys_quiet) (simp add: next_armed_def)
  then show ?thesis by (simp add: existingKeys_Nil)
qed

lemma guarded_not_armed: "guarded p x \<Longrightarrow> p \<noteq> 92 \<Longrightarrow> \<not> armed w \<Longrightarrow> \<not> armed (x @ w)"
proof (induction x arbitrary: p)
  case Nil
  then show ?case by simp
next
  case (Cons c x)
  have "is_space c \<Longrightarrow> c \<noteq> 92" by (auto simp: is_space_def)
  with Cons show ?case by (auto simp: armed_Cons)
qed

lemma guarded_quiet: "guarded p x \<Longrightarrow> \<not> armed w \<Longrightarrow> quiet x w"
proof (induction x arbitrary: p)
  case Nil
  then show ?case by simp
next
  case (Cons c x)
  then show ?case using guarded_not_armed [of c x w] by auto
qed

lemma guarded_calm: "guarded p x \<Longrightarrow> p \<noteq> 92 \<Longrightarrow> calm x"
  unfolding calm_def
  using guarded_not_armed [of p x "[124]"] guarded_quiet [of p x "[124]"]
  by (simp add: armed_Cons armed_Nil not_space_pipe)

section \<open>The rows of a record are read back\<close>


lemma is_space_32: "is_space 32" and is_space_10: "is_space 10"
  by (simp_all add: is_space_def)

lemma guarded_append: "guarded p (x @ y) = (guarded p x \<and> guarded (last (p # x)) y)"
  by (induction x arbitrary: p) auto

lemma guarded_take: "guarded p x \<Longrightarrow> guarded p (take n x)"
proof (induction x arbitrary: p n)
  case Nil
  then show ?case by simp
next
  case (Cons c x)
  then show ?case by (cases n) auto
qed

lemma guarded_no_tick: "96 \<notin> set x \<Longrightarrow> guarded p x"
  by (induction x arbitrary: p) auto

lemma guarded_replace: "guarded p (replace_unit 96 [92, 96] s)"
  by (induction s arbitrary: p) (auto simp: replace_unit_def)

lemma guarded_escapedMessage: "guarded p (escapedMessage raw)"
  by (simp add: escapedMessage_def guarded_replace)

lemma guarded_detailsMessage: "guarded p (detailsMessage raw)"
  by (simp add: detailsMessage_def guarded_replace)

lemma guarded_displayMessage: "guarded p (displayMessage raw)"
  by (simp add: displayMessage_def guarded_append guarded_take guarded_escapedMessage
      guarded_no_tick ellipsis_def js_def)

lemma calm_cell: "calm ([32] @ displayMessage raw @ [32, 124, 10])"
proof -
  have "guarded 124 ([32] @ displayMessage raw @ [32, 124, 10])"
    by (simp add: guarded_append guarded_displayMessage guarded_no_tick)
  then show ?thesis by (rule guarded_calm) simp
qed

lemma calm_details_open: "calm details_open"
  by (simp add: calm_def details_open_def armed_Cons is_space_def)

lemma calm_details_close: "calm details_close"
  by (simp add: calm_def details_close_def armed_Cons is_space_def)

lemma calm_detailsSection: "calm (detailsSection raw)"
proof (cases "folded raw")
  case False
  then show ?thesis by (simp add: detailsSection_def calm_Nil)
next
  case True
  have "calm (detailsMessage raw)"
    using guarded_detailsMessage [of 10 raw] by (rule guarded_calm) simp
  with True show ?thesis
    by (simp add: detailsSection_def calm_append calm_details_open calm_details_close)
qed

lemma row_split: "row it = row_head it @ [32] @ displayMessage (item_message it) @ [32, 124, 10]
    @ detailsSection (item_message it)"
  by (simp add: row_def row_head_def)


lemma armed_pipe: "\<not> armed (124 # r)"
  by (simp add: armed_Cons not_space_pipe)

lemma takeWhile_upto: "d \<notin> set xs \<Longrightarrow> takeWhile (\<lambda>x. x \<noteq> d) (xs @ d # ys) = xs"
  by (induction xs) auto

lemma dropWhile_upto: "d \<notin> set xs \<Longrightarrow> dropWhile (\<lambda>x. x \<noteq> d) (xs @ d # ys) = d # ys"
  by (induction xs) auto

lemma key_match_row:
  assumes "124 \<notin> set b" and "96 \<notin> set b" and "k \<noteq> []" and "96 \<notin> set k"
  shows "key_match (124 # b @ [32, 124, 32, 96] @ k @ [96, 32, 124] @ w) = Some (k, w)"
proof -
  have 1: "takeWhile (\<lambda>x. x \<noteq> 124) (b @ [32, 124, 32, 96] @ k @ [96, 32, 124] @ w) = b @ [32]"
    using assms(1) takeWhile_upto [of 124 "b @ [32]"] by simp
  have 2: "dropWhile (\<lambda>x. x \<noteq> 124) (b @ [32, 124, 32, 96] @ k @ [96, 32, 124] @ w)
      = 124 # [32, 96] @ k @ [96, 32, 124] @ w"
    using assms(1) dropWhile_upto [of 124 "b @ [32]"] by simp
  have 3: "dropWhile is_space ([32, 96] @ k @ [96, 32, 124] @ w) = 96 # k @ [96, 32, 124] @ w"
    by (simp add: is_space_32 not_space_tick)
  have 4: "takeWhile (\<lambda>x. x \<noteq> 96) (k @ [96, 32, 124] @ w) = k"
    using assms(4) takeWhile_upto [of 96 k] by simp
  have 5: "dropWhile (\<lambda>x. x \<noteq> 96) (k @ [96, 32, 124] @ w) = 96 # [32, 124] @ w"
    using assms(4) dropWhile_upto [of 96 k] by simp
  have 6: "dropWhile is_space ([32, 124] @ w) = 124 # w"
    by (simp add: is_space_32 not_space_pipe)
  show ?thesis
    unfolding key_match_def
    by (simp only: list.case 1 2 3 4 5 6 assms(3) simp_thms if_False if_True
        append_is_Nil_conv not_Cons_self2 list.distinct)
qed

lemma unit_row_head:
  assumes "plain_item it"
  shows "unit_of [item_key it] (row_head it)"
  unfolding unit_of_def
proof (intro allI impI)
  fix w assume w: "benign w"
  let ?f = "item_file it" and ?k = "item_key it"
  from assms have f: "96 \<notin> set ?f" and k: "?k \<noteq> []" "96 \<notin> set ?k"
    by (simp_all add: plain_item_def)
  have "124 \<in> set ([124, 32] @ ?f)" by simp
  from split_list_last [OF this] obtain a b where ab: "[124, 32] @ ?f = a @ 124 # b"
    and b: "124 \<notin> set b" by blast
  have "96 \<notin> set (a @ 124 # b)"
    by (simp only: ab [symmetric]) (use f in simp)
  then have ta: "96 \<notin> set a" and tb: "96 \<notin> set b" by simp_all
  let ?rest = "124 # b @ [32, 124, 32, 96] @ ?k @ [96, 32, 124] @ w"
  have rh: "row_head it @ w = a @ ?rest"
    using ab by (simp add: row_head_def)
  have "quiet a ?rest"
    using ta by (rule no_tick_quiet) (rule armed_pipe)
  moreover have "\<not> next_armed ?rest"
  proof -
    have "\<not> armed (b @ 32 # 124 # 32 # 96 # ?k @ [96, 32, 124] @ w)"
      using tb by (rule no_tick_not_armed) (simp add: armed_Cons is_space_32 not_space_pipe)
    then show ?thesis by (simp add: next_armed_Cons)
  qed
  ultimately have "existingKeys (a @ ?rest) = existingKeys ?rest"
    by (rule existingKeys_quiet)
  also have "\<dots> = ?k # existingKeys w"
    using key_match_row [OF b tb k, of w] by (subst existingKeys_step) simp
  finally have keys: "existingKeys (row_head it @ w) = [?k] @ existingKeys w"
    by (simp add: rh)
  have "\<not> armed (row_head it @ w)"
    by (simp add: row_head_def armed_pipe)
  moreover have "\<not> next_armed (row_head it @ w)"
  proof -
    have "\<not> armed (([32] @ ?f) @ 32 # 124 # 32 # 96 # ?k @ [96, 32, 124] @ w)"
      using f by (intro no_tick_not_armed) (simp_all add: armed_Cons is_space_32 not_space_pipe)
    then show ?thesis by (simp add: row_head_def next_armed_Cons)
  qed
  ultimately have "benign (row_head it @ w)" by (simp add: benign_def)
  with keys show "existingKeys (row_head it @ w) = [?k] @ existingKeys w
      \<and> benign (row_head it @ w)" by simp
qed

lemma unit_row: "plain_item it \<Longrightarrow> unit_of [item_key it] (row it)"
proof -
  assume "plain_item it"
  then have "unit_of [item_key it] (row_head it)" by (rule unit_row_head)
  moreover have "unit_of [] (([32] @ displayMessage (item_message it) @ [32, 124, 10])
      @ detailsSection (item_message it))"
    by (intro calm_unit calm_append calm_cell calm_detailsSection)
  ultimately have "unit_of ([item_key it] @ []) (row_head it
      @ (([32] @ displayMessage (item_message it) @ [32, 124, 10])
      @ detailsSection (item_message it)))"
    by (rule unit_append)
  then show ?thesis by (simp add: row_split)
qed

lemma unit_rows: "list_all plain_item its \<Longrightarrow> unit_of (map item_key its) (rows its)"
proof (induction its)
  case Nil
  then show ?case using calm_unit [OF calm_Nil] by (simp add: rows_def)
next
  case (Cons it its)
  then have "unit_of ([item_key it] @ map item_key its) (row it @ rows its)"
    by (intro unit_append unit_row) simp_all
  then show ?case by (simp add: rows_def)
qed

lemma no_tick_literals:
  "96 \<notin> set body_heading" "96 \<notin> set game_label" "96 \<notin> set mod_label"
  "96 \<notin> set time_label" "96 \<notin> set list_heading" "96 \<notin> set table_header"
  "96 \<notin> set table_separator" "96 \<notin> set rule_line" "96 \<notin> set footer_text"
  "96 \<notin> set stamp_marker"
  by (simp_all add: body_heading_def game_label_def mod_label_def time_label_def
      list_heading_def table_header_def table_separator_def rule_line_def footer_text_def
      stamp_marker_def)

lemma calm_heading:
  assumes "96 \<notin> set (gameDisplayName game)" and "96 \<notin> set m" and "96 \<notin> set ts"
  shows "calm (heading game m ts)"
  using assms by (intro no_tick_calm) (simp add: heading_def no_tick_literals)

lemma new_body_split: "new_body game m ts its = (heading game m ts @ rows its) @ rule_line @ footer_text"
  by (simp add: new_body_def heading_def)

lemma existingKeys_new_body:
  assumes "96 \<notin> set (gameDisplayName game)" and "96 \<notin> set m" and "96 \<notin> set ts"
    and "list_all plain_item its"
  shows "existingKeys (new_body game m ts its) = map item_key its"
proof -
  have "unit_of ([] @ map item_key its) (heading game m ts @ rows its)"
    using assms by (intro unit_append calm_unit calm_heading unit_rows)
  moreover have t: "96 \<notin> set (rule_line @ footer_text)"
    by (simp add: no_tick_literals)
  then have "benign (rule_line @ footer_text)" by (rule no_tick_benign)
  ultimately have "existingKeys ((heading game m ts @ rows its) @ rule_line @ footer_text)
      = map item_key its @ existingKeys (rule_line @ footer_text)"
    by (simp add: unit_of_def)
  with no_tick_no_keys [OF t] show ?thesis by (simp add: new_body_split)
qed

section \<open>Round trip\<close>

lemma existingKeys_Cons:
  "existingKeys (c # r) =
     (case key_match (c # r) of Some (k, rest) \<Rightarrow> k # existingKeys rest | None \<Rightarrow> existingKeys r)"
  by (subst existingKeys_step) (simp split: option.splits)

lemmas eval_keys = existingKeys_Cons existingKeys_Nil key_match_def is_space_def

lemmas literal_defs = body_heading_def game_label_def mod_label_def time_label_def
  list_heading_def table_header_def table_separator_def rule_line_def footer_text_def
  stamp_marker_def details_open_def details_close_def ellipsis_def js_def

lemmas body_defs = new_body_def rows_def row_def displayMessage_def detailsSection_def
  escapedMessage_def detailsMessage_def folded_def replace_unit_def gameDisplayName_def

text \<open>
  Claim C4, as stated, fails: the key \<open>a`b\<close> of the one item of the batch is not
  recovered from the body created for the batch; the extractor finds no key at all.
\<close>

theorem round_trip_counterexample:
  "set (existingKeys (new_body (js ''ck3'') (js ''m'') (js ''T'') [tick_item]))
     \<noteq> set (map item_key [tick_item])"
proof -
  have "existingKeys (new_body (js ''ck3'') (js ''m'') (js ''T'') [tick_item]) = []"
    by (simp add: eval_keys literal_defs body_defs tick_item_def)
  then show ?thesis by simp
qed

text \<open>
  Claim C4, amended. For every batch whose items have a key that is not empty and no
  backtick in file and key, and a game name, a group and a timestamp without backtick:
  the keys the extractor finds in the body created for the batch are exactly the keys of
  the items of the batch, in their order, whatever the messages are (with pipes,
  backticks or line feeds, folded or not).
\<close>

theorem round_trip:
  assumes "96 \<notin> set (gameDisplayName game)" and "96 \<notin> set m" and "96 \<notin> set ts"
    and "list_all plain_item its"
  shows "existingKeys (new_body game m ts its) = map item_key its"
  using assms by (rule existingKeys_new_body)

theorem round_trip_witness:
  "existingKeys (new_body (js ''ck3'') (js ''m'') (js ''T'') [sample_item, fold_item])
     = [js ''EVENT.1'', js ''EVENT.2'']"
proof -
  have 1: "96 \<notin> set (gameDisplayName (js ''ck3''))" "96 \<notin> set (js ''m'')"
    "96 \<notin> set (js ''T'')"
    by (simp_all add: gameDisplayName_def js_def)
  have 2: "list_all plain_item [sample_item, fold_item]"
    by (simp add: plain_item_def sample_item_def fold_item_def js_def)
  from round_trip [OF 1 2] show ?thesis
    by (simp add: sample_item_def fold_item_def)
qed

section \<open>Records made of whole lines\<close>













































section \<open>Idempotence of an update\<close>














section \<open>The closing action: one timestamp in a closed record\<close>





































end
